theory Spec2Isabelle
  imports Main
begin

section \<open>Errors and bytes\<close>

text \<open>
  Go's \<open>error\<close> values that can travel through \<open>StreamReader.Read\<close>: the
  sentinels \<open>io.EOF\<close>, \<open>ErrNilReader\<close> (declared in \<open>s_reader.go\<close>),
  \<open>bufio.ErrTooLong\<close> and \<open>io.ErrNoProgress\<close> (raised by the scanner), and any other
  error value, which a filter or the upstream reader may hand over.  A byte slice and a Go
  string are both a list of bytes; \<open>nil\<close> slices are \<open>None\<close>.
\<close>

datatype error = EOF | ErrNilReader | ErrTooLong | ErrNoProgress | ErrOther string

abbreviation newline :: char where
  "newline \<equiv> CHR 0x0A"

section \<open>The split function of \<open>s_reader.go\<close>\<close>

text \<open>\<open>bytes.IndexByte\<close>: the index of the first occurrence, \<open>None\<close> for \<open>-1\<close>.\<close>

fun IndexByte :: "string \<Rightarrow> char \<Rightarrow> nat option" where
  "IndexByte [] c = None"
| "IndexByte (x # xs) c =
     (if x = c then Some 0 else map_option Suc (IndexByte xs c))"

text \<open>
  \<open>split data atEOF\<close> returns \<open>(advance, token)\<close>; the third result of the Go
  function, the error, is \<open>nil\<close> on each of its four paths.
\<close>

definition split :: "string \<Rightarrow> bool \<Rightarrow> nat \<times> string option" where
  "split data atEOF =
     (if atEOF \<and> length data = 0 then (0, None)
      else case IndexByte data newline of
             Some i \<Rightarrow> (i + 1, Some (take (i + 1) data))
           | None \<Rightarrow> if atEOF then (length data, Some data) else (0, None))"

section \<open>The upstream reader\<close>

text \<open>
  The upstream \<open>io.Reader\<close> is an in-memory reader: it holds the bytes it has not handed
  over yet and the error it reports once they are used up, \<open>io.EOF\<close> for a source that
  ends (a \<open>strings.Reader\<close>, as in the tests) and any other error for a source that
  fails.  \<open>reader_Read r n\<close> is \<open>r.Read(p)\<close> with \<open>len(p) = n\<close>: the bytes copied
  into \<open>p\<close>, the error, and the reader afterwards.
\<close>

record reader =
  data :: string
  final :: error

definition reader_Read :: "reader \<Rightarrow> nat \<Rightarrow> (string \<times> error option) \<times> reader" where
  "reader_Read r n =
     (if data r = [] then (([], Some (final r)), r)
      else ((take n (data r), None), r\<lparr>data := drop n (data r)\<rparr>))"

section \<open>\<open>bufio.Scanner\<close>\<close>

text \<open>
  The scanner of the standard library, as \<open>NewStreamReader\<close> sets it up: the default
  buffer (none at first, then \<open>startBufSize\<close>, doubled up to \<open>MaxScanTokenSize\<close>) and
  the split function above.  \<open>window\<close> is \<open>s.buf[s.start:s.end]\<close>, \<open>bufsize\<close> is
  \<open>len(s.buf)\<close>, \<open>err\<close> is \<open>s.err\<close> and \<open>token\<close> is \<open>s.token\<close>.
\<close>

definition MaxScanTokenSize :: nat where
  "MaxScanTokenSize = 64 * 1024"

definition startBufSize :: nat where
  "startBufSize = 4096"

definition maxConsecutiveEmptyReads :: nat where
  "maxConsecutiveEmptyReads = 100"

record Scanner =
  r :: reader
  window :: string
  start :: nat
  bufsize :: nat
  err :: "error option"
  token :: "string option"

definition NewScanner :: "reader \<Rightarrow> Scanner" where
  "NewScanner rd =
     \<lparr>r = rd, window = [], start = 0, bufsize = 0, err = None, token = None\<rparr>"

text \<open>\<open>setErr\<close> records the first error that is not \<open>io.EOF\<close>.\<close>

definition setErr :: "error \<Rightarrow> Scanner \<Rightarrow> Scanner" where
  "setErr e s = (if err s = None \<or> err s = Some EOF then s\<lparr>err := Some e\<rparr> else s)"

text \<open>
  The inner loop of \<open>Scan\<close> that reads into the free part of the buffer, guarding against
  a reader that keeps returning nothing: \<open>fill loop s\<close> is the loop entered with the
  counter \<open>loop\<close>.
\<close>

function fill :: "nat \<Rightarrow> Scanner \<Rightarrow> Scanner" where
  "fill loop s =
     (case reader_Read (r s) (bufsize s - (start s + length (window s))) of
        ((bs, e), r') \<Rightarrow>
          let s1 = s\<lparr>r := r', window := window s @ bs\<rparr> in
          (case e of
             Some x \<Rightarrow> setErr x s1
           | None \<Rightarrow>
               if length bs > 0 then s1
               else if loop + 1 > maxConsecutiveEmptyReads then setErr ErrNoProgress s1
               else fill (loop + 1) s1))"
  by pat_completeness auto
termination
  by (relation "measure (\<lambda>(loop, s). (maxConsecutiveEmptyReads + 1) - loop)") auto

text \<open>
  Before reading, \<open>Scan\<close> moves the window to the front of the buffer when that frees
  room, and doubles a full buffer; a buffer that is full at its largest size means the
  token does not fit.  \<open>make_room s\<close> is \<open>None\<close> in that case.
\<close>

definition shift :: "Scanner \<Rightarrow> Scanner" where
  "shift s =
     (if start s > 0 \<and>
         (start s + length (window s) = bufsize s \<or> start s > bufsize s div 2)
      then s\<lparr>start := 0\<rparr> else s)"

definition make_room :: "Scanner \<Rightarrow> Scanner option" where
  "make_room s0 =
     (let s = shift s0 in
      if start s + length (window s) = bufsize s then
        (if bufsize s \<ge> MaxScanTokenSize then None
         else
           let newSize = (if bufsize s * 2 = 0 then startBufSize else bufsize s * 2)
           in Some (s\<lparr>bufsize := min newSize MaxScanTokenSize, start := 0\<rparr>))
      else Some s)"

text \<open>
  \<open>Scan\<close>: the outer loop.  It first asks \<open>split\<close> for a token from the window, at
  end of input when an error (or \<open>io.EOF\<close>) has been recorded; with no token it stops
  if an error has been recorded, and reads more otherwise.  The result is the boolean
  \<open>Scan\<close> returns and the scanner afterwards.  The checks of \<open>advance\<close> against a
  negative or too large count cannot fire: \<open>split\<close> advances by at most the length of
  its data.
\<close>

definition unread :: "Scanner \<Rightarrow> nat" where
  "unread s = length (window s) + length (data (r s))"

lemma setErr_fields [simp]:
  "r (setErr e s) = r s" "window (setErr e s) = window s"
  "start (setErr e s) = start s" "bufsize (setErr e s) = bufsize s"
  "token (setErr e s) = token s"
  by (simp_all add: setErr_def)

lemma setErr_err [simp]: "\<exists>y. err (setErr e s) = Some y"
  by (simp add: setErr_def)

declare fill.simps [simp del]

lemma fill_unfold:
  "fill loop s =
     (let room = bufsize s - (start s + length (window s)) in
      if data (r s) = [] then setErr (final (r s)) s
      else if room = 0 then
        (if loop + 1 > maxConsecutiveEmptyReads then setErr ErrNoProgress s
         else fill (loop + 1) s)
      else s\<lparr>r := (r s)\<lparr>data := drop room (data (r s))\<rparr>,
             window := window s @ take room (data (r s))\<rparr>)"
  by (subst fill.simps) (simp add: reader_Read_def Let_def)

lemma drop_shorter: "xs \<noteq> [] \<Longrightarrow> 0 < n \<Longrightarrow> length (drop n xs) < length xs"
  by (cases xs) auto

text \<open>The counter only matters for a reader that returns nothing: the outcome of the loop.\<close>

lemma fill_result:
  "fill loop s =
     (let room = bufsize s - (start s + length (window s)) in
      if data (r s) = [] then setErr (final (r s)) s
      else if room = 0 then setErr ErrNoProgress s
      else s\<lparr>r := (r s)\<lparr>data := drop room (data (r s))\<rparr>,
             window := window s @ take room (data (r s))\<rparr>)"
proof (induction "maxConsecutiveEmptyReads + 1 - loop" arbitrary: loop)
  case 0
  then show ?case
    by (subst fill_unfold) (simp add: Let_def)
next
  case (Suc k)
  show ?case
  proof (cases "Suc loop > maxConsecutiveEmptyReads")
    case True
    then show ?thesis
      by (subst fill_unfold) (simp add: Let_def)
  next
    case False
    with Suc.hyps(2) have "k = maxConsecutiveEmptyReads + 1 - Suc loop" by simp
    from Suc.hyps(1)[OF this] show ?thesis
      by (subst fill_unfold) (simp add: Let_def)
  qed
qed

lemma fill_progress:
  "err s = None \<Longrightarrow>
   (err (fill loop s) \<noteq> None \<and> length (data (r (fill loop s))) \<le> length (data (r s))) \<or>
   length (data (r (fill loop s))) < length (data (r s))"
  by (auto simp: fill_result Let_def drop_shorter simp del: length_drop)

lemma fill_unread:
  "window (fill loop s) @ data (r (fill loop s)) = window s @ data (r s)"
  "final (r (fill loop s)) = final (r s)"
  by (simp_all add: fill_result Let_def)

function scan_loop :: "Scanner \<Rightarrow> bool \<times> Scanner" where
  "scan_loop s =
     (let atEOF = (err s \<noteq> None);
          (advance, tok) = (if length (window s) > 0 \<or> atEOF then split (window s) atEOF
                            else (0, None));
          s1 = (if length (window s) > 0 \<or> atEOF
                then s\<lparr>window := drop advance (window s), start := start s + advance,
                       token := tok\<rparr>
                else s)
      in if tok \<noteq> None then (True, s1)
         else if err s1 \<noteq> None then (False, s1\<lparr>start := 0, window := []\<rparr>)
         else case make_room s1 of
                None \<Rightarrow> (False, setErr ErrTooLong (shift s1))
              | Some s2 \<Rightarrow> scan_loop (fill 0 s2))"
  by pat_completeness auto
termination
proof (relation "measure (\<lambda>s. length (data (r s)) + (if err s = None then 1 else 0))")
  show "wf (measure (\<lambda>s. length (data (r s)) + (if err s = None then 1 else 0)))"
    by simp
next
  fix s :: Scanner and atEOF x advance tok s1 s2
  assume a: "atEOF = (err s \<noteq> None)"
    "x = (if 0 < length (window s) \<or> atEOF then split (window s) atEOF else (0, None))"
    "(advance, tok) = x"
    "s1 = (if 0 < length (window s) \<or> atEOF
           then s\<lparr>window := drop advance (window s), start := start s + advance, token := tok\<rparr>
           else s)"
    "\<not> tok \<noteq> None" "\<not> err s1 \<noteq> None" "make_room s1 = Some s2"
  have e1: "err s = None" and d1: "data (r s1) = data (r s)"
    using a by (auto split: if_splits)
  have e2: "err s2 = None" and d2: "data (r s2) = data (r s)"
    using a(6,7) d1 by (auto simp: make_room_def shift_def Let_def split: if_splits)
  show "(fill 0 s2, s) \<in> measure (\<lambda>s. length (data (r s)) + (if err s = None then 1 else 0))"
    using fill_progress[OF e2, of 0] e1 d2 by auto
qed

declare scan_loop.simps [simp del]

definition Scan :: "Scanner \<Rightarrow> bool \<times> Scanner" where
  "Scan s = scan_loop s"

text \<open>\<open>Bytes\<close> is the last token (\<open>string\<close> of a nil slice is empty), \<open>Err\<close> hides \<open>io.EOF\<close>.\<close>

definition Bytes :: "Scanner \<Rightarrow> string" where
  "Bytes s = (case token s of None \<Rightarrow> [] | Some t \<Rightarrow> t)"

definition Err :: "Scanner \<Rightarrow> error option" where
  "Err s = (if err s = Some EOF then None else err s)"

subsection \<open>What one round of the scan loop does\<close>

lemma IndexByte_Some: "IndexByte xs c = Some i \<Longrightarrow> i < length xs \<and> xs ! i = c \<and> c \<notin> set (take i xs)"
proof (induction xs arbitrary: i)
  case Nil
  then show ?case by simp
next
  case (Cons x xs)
  show ?case
  proof (cases "x = c")
    case True
    with Cons.prems show ?thesis by simp
  next
    case False
    with Cons.prems obtain j where j: "IndexByte xs c = Some j" "i = Suc j"
      by auto
    with Cons.IH[OF j(1)] False show ?thesis by simp
  qed
qed

lemma IndexByte_None: "IndexByte xs c = None \<longleftrightarrow> c \<notin> set xs"
  by (induction xs) auto

lemma split_token:
  "split d e = (a, Some t) \<Longrightarrow> 0 < a \<and> a \<le> length d \<and> t = take a d"
  by (auto simp: split_def split: if_splits option.splits dest: IndexByte_Some)

lemma split_no_token: "split d e = (a, None) \<Longrightarrow> a = 0"
  by (auto simp: split_def split: if_splits option.splits)

lemma scan_loop_line:
  assumes "IndexByte (window s) newline = Some i"
  shows "scan_loop s =
           (True, s\<lparr>window := drop (i + 1) (window s), start := start s + (i + 1),
                    token := Some (take (i + 1) (window s))\<rparr>)"
proof -
  from assms have "window s \<noteq> []" by auto
  with assms show ?thesis
    by (subst scan_loop.simps) (simp add: split_def Let_def)
qed

lemma scan_loop_rest:
  assumes "err s \<noteq> None" "window s \<noteq> []" "IndexByte (window s) newline = None"
  shows "scan_loop s =
           (True, s\<lparr>window := [], start := start s + length (window s),
                    token := Some (window s)\<rparr>)"
  using assms by (subst scan_loop.simps) (auto simp: split_def Let_def)

lemma scan_loop_done:
  assumes "err s \<noteq> None" "window s = []"
  shows "scan_loop s = (False, s\<lparr>window := [], start := 0, token := None\<rparr>)"
  using assms by (subst scan_loop.simps) (auto simp: split_def Let_def)

text \<open>With no token in the window and no error recorded, the loop makes room and reads.\<close>

definition untoken :: "Scanner \<Rightarrow> Scanner" where
  "untoken s = (if window s = [] then s else s\<lparr>token := None\<rparr>)"

lemma scan_loop_more:
  assumes "err s = None" "IndexByte (window s) newline = None"
  shows "scan_loop s =
           (case make_room (untoken s) of
              None \<Rightarrow> (False, setErr ErrTooLong (shift (untoken s)))
            | Some s2 \<Rightarrow> scan_loop (fill 0 s2))"
  using assms
  by (subst scan_loop.simps) (auto simp: split_def Let_def untoken_def split: option.splits)

lemma untoken_fields [simp]:
  "window (untoken s) = window s" "r (untoken s) = r s" "err (untoken s) = err s"
  "start (untoken s) = start s" "bufsize (untoken s) = bufsize s"
  by (simp_all add: untoken_def)

lemma shift_fields [simp]:
  "window (shift s) = window s" "r (shift s) = r s" "err (shift s) = err s"
  "bufsize (shift s) = bufsize s" "token (shift s) = token s"
  by (simp_all add: shift_def)

lemma make_room_fields:
  "make_room s = Some s2 \<Longrightarrow>
     window s2 = window s \<and> r s2 = r s \<and> err s2 = err s \<and> token s2 = token s"
  by (auto simp: make_room_def Let_def split: if_splits)

text \<open>A scan that returns a token has consumed at least one byte; none is ever added.\<close>

lemma scan_loop_unread:
  "scan_loop s = (ok, s') \<Longrightarrow>
     unread s' \<le> unread s \<and> (ok \<longrightarrow> unread s' < unread s) \<and> final (r s') = final (r s)"
proof (induction "length (data (r s)) + (if err s = None then 1 else 0)"
    arbitrary: s rule: less_induct)
  case less
  show ?case
  proof (cases "IndexByte (window s) newline")
    case (Some i)
    then have "i < length (window s)" by (auto dest: IndexByte_Some)
    with less.prems Some show ?thesis
      by (auto simp: scan_loop_line unread_def)
  next
    case None
    show ?thesis
    proof (cases "err s = None")
      case False
      with less.prems None show ?thesis
        by (cases "window s = []") (auto simp: scan_loop_rest scan_loop_done unread_def)
    next
      case True
      note more = scan_loop_more[OF True None]
      show ?thesis
      proof (cases "make_room (untoken s)")
        case None
        with less.prems more show ?thesis
          by (auto simp: unread_def)
      next
        case (Some s2)
        from make_room_fields[OF Some]
        have f: "window s2 = window s" "r s2 = r s" "err s2 = None"
          using True by simp_all
        have m: "length (data (r (fill 0 s2))) + (if err (fill 0 s2) = None then 1 else 0)
                 < length (data (r s)) + (if err s = None then 1 else 0)"
          using fill_progress[OF f(3), of 0] f True by auto
        have "scan_loop (fill 0 s2) = (ok, s')"
          using less.prems more Some by simp
        from less.hyps[OF m this] show ?thesis
          using fill_unread[of 0 s2] f
          by (simp add: unread_def) (metis length_append)
      qed
    qed
  qed
qed

subsection \<open>What \<open>Scan\<close> returns, from the bytes still to come\<close>

text \<open>
  The buffer never outgrows \<open>MaxScanTokenSize\<close>, and the bytes still to come are the
  window followed by what the upstream holds.  \<open>scan_post u fin res\<close> says what a call of
  \<open>Scan\<close> that starts with \<open>u\<close> to come has done: a line that ends within the first
  \<open>MaxScanTokenSize\<close> bytes is the token; with no such line, \<open>u\<close> is too long for the
  buffer, or it is the last token, or there is nothing left.
\<close>

definition wfS :: "Scanner \<Rightarrow> bool" where
  "wfS s \<longleftrightarrow> start s + length (window s) \<le> bufsize s \<and> bufsize s \<le> MaxScanTokenSize"

definition pending :: "Scanner \<Rightarrow> string" where
  "pending s = window s @ data (r s)"

lemma make_room_None:
  "wfS s \<Longrightarrow> make_room s = None \<Longrightarrow> length (window s) = MaxScanTokenSize"
  by (auto simp: make_room_def shift_def wfS_def Let_def split: if_splits)

lemma make_room_Some:
  "wfS s \<Longrightarrow> make_room s = Some s2 \<Longrightarrow>
     wfS s2 \<and> start s2 + length (window s2) < bufsize s2 \<and>
     window s2 = window s \<and> r s2 = r s \<and> err s2 = err s"
  by (auto simp: make_room_def shift_def wfS_def Let_def MaxScanTokenSize_def startBufSize_def
      split: if_splits)

lemma IndexByte_append:
  "IndexByte xs c = Some j \<Longrightarrow> IndexByte (xs @ ys) c = Some j"
  by (induction xs arbitrary: j) (auto split: if_splits)

lemma IndexByte_take:
  "IndexByte xs c = Some j \<Longrightarrow> j < n \<Longrightarrow> IndexByte (take n xs) c = Some j"
proof (induction xs arbitrary: j n)
  case Nil
  then show ?case by simp
next
  case (Cons x xs)
  then show ?case
    by (cases n) (auto split: if_splits)
qed


definition scan_post :: "string \<Rightarrow> error \<Rightarrow> bool \<times> Scanner \<Rightarrow> bool" where
  "scan_post u fin res =
     (case IndexByte (take MaxScanTokenSize u) newline of
        Some i \<Rightarrow>
          fst res \<and> token (snd res) = Some (take (i + 1) u) \<and>
          pending (snd res) = drop (i + 1) u \<and> err (snd res) = None \<and> wfS (snd res) \<and>
          final (r (snd res)) = fin
      | None \<Rightarrow>
          if length u \<ge> MaxScanTokenSize then
            \<not> fst res \<and> err (snd res) = Some ErrTooLong
          else if u \<noteq> [] then
            fst res \<and> token (snd res) = Some u \<and> pending (snd res) = [] \<and>
            err (snd res) = Some fin
          else \<not> fst res \<and> pending (snd res) = [] \<and> err (snd res) = Some fin)"

lemma scan_post_line:
  "IndexByte (take MaxScanTokenSize u) newline = Some i \<Longrightarrow>
   token s' = Some (take (i + 1) u) \<Longrightarrow> pending s' = drop (i + 1) u \<Longrightarrow> err s' = None \<Longrightarrow>
   wfS s' \<Longrightarrow> final (r s') = fin \<Longrightarrow> scan_post u fin (True, s')"
  by (simp add: scan_post_def)

lemma scan_post_long:
  "IndexByte (take MaxScanTokenSize u) newline = None \<Longrightarrow> length u \<ge> MaxScanTokenSize \<Longrightarrow>
   err s' = Some ErrTooLong \<Longrightarrow> scan_post u fin (False, s')"
  by (simp add: scan_post_def)

lemma scan_post_rest:
  "IndexByte u newline = None \<Longrightarrow> length u < MaxScanTokenSize \<Longrightarrow> u \<noteq> [] \<Longrightarrow>
   token s' = Some u \<Longrightarrow> pending s' = [] \<Longrightarrow> err s' = Some fin \<Longrightarrow>
   scan_post u fin (True, s')"
  by (simp add: scan_post_def)

lemma scan_post_done:
  "u = [] \<Longrightarrow> pending s' = [] \<Longrightarrow> err s' = Some fin \<Longrightarrow> scan_post u fin (False, s')"
  by (simp add: scan_post_def MaxScanTokenSize_def)

lemma scan_loop_spec:
  "wfS s \<Longrightarrow> err s = None \<Longrightarrow> scan_post (pending s) (final (r s)) (scan_loop s)"
proof (induction "length (data (r s))" arbitrary: s rule: less_induct)
  case less
  note wf = less.prems(1) and e = less.prems(2)
  let ?u = "pending s"
  have wlen: "length (window s) \<le> MaxScanTokenSize"
    using wf by (simp add: wfS_def)
  show ?case
  proof (cases "IndexByte (window s) newline")
    case (Some j)
    then have j: "j < length (window s)" by (auto dest: IndexByte_Some)
    have "IndexByte ?u newline = Some j"
      using Some by (simp add: pending_def IndexByte_append)
    then have ix: "IndexByte (take MaxScanTokenSize ?u) newline = Some j"
      using j wlen by (intro IndexByte_take) auto
    show ?thesis
      unfolding scan_loop_line[OF Some]
      using j wf e by (intro scan_post_line[OF ix]) (auto simp: pending_def wfS_def)
  next
    case None
    note nonl = None
    note more = scan_loop_more[OF e None]
    have wfu: "wfS (untoken s)"
      using wf by (simp add: wfS_def)
    show ?thesis
    proof (cases "make_room (untoken s)")
      case None
      from make_room_None[OF wfu None] have full: "length (window s) = MaxScanTokenSize"
        by simp
      then have tk: "take MaxScanTokenSize ?u = window s"
        by (simp add: pending_def)
      have sl: "scan_loop s = (False, setErr ErrTooLong (shift (untoken s)))"
        by (simp add: more None)
      show ?thesis
        unfolding sl
        using full e nonl
        by (intro scan_post_long) (simp_all add: tk, simp_all add: pending_def setErr_def)
    next
      case (Some s2)
      from make_room_Some[OF wfu Some]
      have s2: "wfS s2" "start s2 + length (window s2) < bufsize s2"
        "window s2 = window s" "r s2 = r s" "err s2 = None"
        using e by auto
      have sl: "scan_loop s = scan_loop (fill 0 s2)"
        by (simp add: more Some)
      show ?thesis
      proof (cases "data (r s) = []")
        case True
        then have f: "fill 0 s2 = s2\<lparr>err := Some (final (r s))\<rparr>"
          using s2 by (simp add: fill_result setErr_def)
        have u: "?u = window s" using True by (simp add: pending_def)
        have short: "length (window s) < MaxScanTokenSize"
          using s2 by (simp add: wfS_def)
        show ?thesis
        proof (cases "window s = []")
          case True
          have "scan_loop s = (False, s2\<lparr>err := Some (final (r s)), window := [],
                                        start := 0, token := None\<rparr>)"
            using True s2 by (simp add: sl f scan_loop_done)
          then show ?thesis
            using s2 True \<open>data (r s) = []\<close>
            by (simp add: u) (intro scan_post_done, simp_all add: pending_def)
        next
          case False
          have "scan_loop s =
                  (True, s2\<lparr>err := Some (final (r s)), window := [],
                           start := start s2 + length (window s), token := Some (window s)\<rparr>)"
            using False s2 nonl by (simp add: sl f scan_loop_rest)
          then show ?thesis
            using s2 False \<open>data (r s) = []\<close> short nonl
            by (simp add: u) (intro scan_post_rest, simp_all add: pending_def)
        qed
      next
        case False
        let ?room = "bufsize s2 - (start s2 + length (window s2))"
        let ?s3 = "s2\<lparr>r := (r s2)\<lparr>data := drop ?room (data (r s2))\<rparr>,
                       window := window s2 @ take ?room (data (r s2))\<rparr>"
        have f: "fill 0 s2 = ?s3"
          using False s2 by (simp add: fill_result Let_def)
        have less': "length (data (r ?s3)) < length (data (r s))"
          using False s2 by (simp add: drop_shorter del: length_drop)
        have wf3: "wfS ?s3" using s2 by (auto simp: wfS_def)
        have e3: "err ?s3 = None" using s2 by simp
        have p3: "pending ?s3 = ?u" "final (r ?s3) = final (r s)"
          using s2 by (simp_all add: pending_def)
        from less.hyps[OF less' wf3 e3] show ?thesis
          unfolding p3 sl f .
      qed
    qed
  qed
qed

section \<open>\<open>bytes.Buffer\<close>\<close>

text \<open>
  The carry-over buffer is the unread part of a \<open>bytes.Buffer\<close>.  \<open>Write\<close> appends;
  \<open>Buffer_Read b n\<close> is \<open>b.Read(p)\<close> with \<open>len(p) = n\<close>: an empty buffer reports
  \<open>io.EOF\<close>, unless \<open>p\<close> is empty too.
\<close>

definition Buffer_Write :: "string \<Rightarrow> string \<Rightarrow> string" where
  "Buffer_Write b p = b @ p"

definition Buffer_Read :: "string \<Rightarrow> nat \<Rightarrow> (string \<times> error option) \<times> string" where
  "Buffer_Read b n =
     (if b = [] then (if n = 0 then (([], None), []) else (([], Some EOF), []))
      else ((take n b, None), drop n b))"

section \<open>The stream reader of \<open>s_reader.go\<close>\<close>

text \<open>
  A filter returns a string and an error (\<open>None\<close> for \<open>nil\<close>).  The struct keeps the
  names of its fields, but for \<open>filter\<close>, which is \<open>filter_f\<close> here.
\<close>

type_synonym StringLineFilter = "string \<Rightarrow> string \<times> error option"

definition NopFilter :: StringLineFilter where
  "NopFilter inp = (inp, None)"

record StreamReader =
  scanner :: Scanner
  filter_f :: StringLineFilter
  buffer :: string
  existsData :: bool

definition NewStreamReader ::
  "reader option \<Rightarrow> StringLineFilter option \<Rightarrow> StreamReader option" where
  "NewStreamReader rd f =
     (case rd of
        None \<Rightarrow> None
      | Some rd' \<Rightarrow>
          Some \<lparr>scanner = NewScanner rd',
                filter_f = (case f of None \<Rightarrow> NopFilter | Some f' \<Rightarrow> f'),
                buffer = [],
                existsData = True\<rparr>)"

text \<open>
  The \<open>for\<close> loop of \<open>Read\<close>, entered with \<open>bufErr = nil\<close>: it returns the reader and
  \<open>bufErr\<close> as they are when the loop is left.
\<close>

function read_loop :: "StreamReader \<Rightarrow> StreamReader \<times> error option" where
  "read_loop sr =
     (if \<not> existsData sr then (sr, None)
      else case Scan (scanner sr) of
        (ok, sc) \<Rightarrow>
          let sr1 = sr\<lparr>scanner := sc, existsData := ok\<rparr> in
          if \<not> ok then (sr1, None)
          else case filter_f sr1 (Bytes sc) of
            (lineStr, bufErr) \<Rightarrow>
              if bufErr \<noteq> None then (sr1, bufErr)
              else if lineStr \<noteq> [] then
                (sr1\<lparr>buffer := Buffer_Write (buffer sr1) lineStr\<rparr>, None)
              else read_loop sr1)"
  by pat_completeness auto
termination
  by (relation "measure (\<lambda>sr. unread (scanner sr))")
     (auto simp: Scan_def dest: scan_loop_unread[OF sym])

declare read_loop.simps [simp del]

text \<open>
  \<open>Read sr n\<close> is \<open>sr.Read(p)\<close> with \<open>len(p) = n\<close> on a receiver that may be
  \<open>nil\<close>.  The result is the bytes written to the front of \<open>p\<close> (their number is the
  count \<open>Read\<close> returns), the error, and the receiver afterwards.
\<close>

definition Read ::
  "StreamReader option \<Rightarrow> nat \<Rightarrow> (string \<times> error option) \<times> StreamReader option" where
  "Read sr n =
     (case sr of
        None \<Rightarrow> (([], Some ErrNilReader), None)
      | Some sr0 \<Rightarrow>
          (case read_loop sr0 of
             (sr1, bufErr0) \<Rightarrow>
               let bufErr = (if \<not> existsData sr1 \<and> bufErr0 = None
                             then Err (scanner sr1) else bufErr0)
               in case bufErr of
                    None \<Rightarrow>
                      (case Buffer_Read (buffer sr1) n of
                         (res, b) \<Rightarrow> (res, Some (sr1\<lparr>buffer := b\<rparr>)))
                  | Some e \<Rightarrow> (([], Some e), Some sr1)))"

section \<open>Consumers\<close>

text \<open>
  \<open>Reads ns sr\<close> calls \<open>Read\<close> once for each destination length of \<open>ns\<close>, whatever
  the calls return, and lists the results.  \<open>read_seq ns sr\<close> stops at the first call that
  returns an error, as \<open>io.ReadAll\<close> and \<open>io.Copy\<close> do, and returns all bytes read with
  that error (\<open>None\<close> when \<open>ns\<close> ran out first).
\<close>

fun Reads ::
  "nat list \<Rightarrow> StreamReader option \<Rightarrow> (string \<times> error option) list \<times> StreamReader option"
  where
  "Reads [] sr = ([], sr)"
| "Reads (n # ns) sr =
     (case Read sr n of (res, sr') \<Rightarrow>
        (case Reads ns sr' of (rs, sr'') \<Rightarrow> (res # rs, sr'')))"

fun read_seq ::
  "nat list \<Rightarrow> StreamReader option \<Rightarrow> (string \<times> error option) \<times> StreamReader option"
  where
  "read_seq [] sr = (([], None), sr)"
| "read_seq (n # ns) sr =
     (case Read sr n of
        ((out, Some e), sr') \<Rightarrow> ((out, Some e), sr')
      | ((out, None), sr') \<Rightarrow>
          (case read_seq ns sr' of ((rest, e), sr'') \<Rightarrow> ((out @ rest, e), sr'')))"

definition Err_of :: "error \<Rightarrow> error option" where
  "Err_of fin = (if fin = EOF then None else Some fin)"

function records :: "string \<Rightarrow> error \<Rightarrow> string list \<times> error option" where
  "records u fin =
     (if u = [] then ([], Err_of fin)
      else case IndexByte (take MaxScanTokenSize u) newline of
             Some i \<Rightarrow>
               (case records (drop (i + 1) u) fin of (ts, e) \<Rightarrow> (take (i + 1) u # ts, e))
           | None \<Rightarrow>
               if length u \<ge> MaxScanTokenSize then ([], Some ErrTooLong)
               else ([u], Err_of fin))"
  by pat_completeness auto
termination
  by (relation "measure (\<lambda>(u, fin). length u)") (auto simp: drop_shorter simp del: length_drop)

declare records.simps [simp del]

definition Sinv :: "Scanner \<Rightarrow> bool" where
  "Sinv s \<longleftrightarrow> (if err s = None then wfS s else window s = [])"

definition to_come :: "Scanner \<Rightarrow> string list \<times> error option" where
  "to_come s = (if err s = None then records (pending s) (final (r s)) else ([], Err s))"

lemma Sinv_NewScanner: "Sinv (NewScanner rd)"
  by (simp add: Sinv_def NewScanner_def wfS_def)

lemma to_come_NewScanner: "to_come (NewScanner rd) = records (data rd) (final rd)"
  by (simp add: to_come_def NewScanner_def pending_def)

lemma Scan_token:
  assumes "Sinv s" "to_come s = (t # ts, fe)"
  shows "\<exists>s'. Scan s = (True, s') \<and> Bytes s' = t \<and> Sinv s' \<and> to_come s' = (ts, fe)"
proof -
  from assms(2) have e: "err s = None"
    by (auto simp: to_come_def split: if_splits)
  with assms(1) have wf: "wfS s" by (simp add: Sinv_def)
  let ?u = "pending s" and ?fin = "final (r s)"
  from assms(2) e have rec: "records ?u ?fin = (t # ts, fe)"
    by (simp add: to_come_def)
  then have ne: "?u \<noteq> []"
    by (subst (asm) records.simps) (auto split: if_splits)
  obtain ok s' where sl: "scan_loop s = (ok, s')" by (cases "scan_loop s")
  note post = scan_loop_spec[OF wf e, unfolded sl]
  show ?thesis
  proof (cases "IndexByte (take MaxScanTokenSize ?u) newline")
    case (Some i)
    with post have p: "ok" "token s' = Some (take (i + 1) ?u)" "pending s' = drop (i + 1) ?u"
      "err s' = None" "wfS s'" "final (r s') = ?fin"
      by (simp_all add: scan_post_def)
    from rec Some ne have "t = take (i + 1) ?u" "records (drop (i + 1) ?u) ?fin = (ts, fe)"
      by (subst (asm) records.simps, auto split: prod.splits)+
    with p sl show ?thesis
      by (simp add: Scan_def Bytes_def Sinv_def to_come_def)
  next
    case None
    with rec ne have short: "\<not> length ?u \<ge> MaxScanTokenSize" and t: "t = ?u" "ts = []" "fe = Err_of ?fin"
      by (subst (asm) records.simps, auto split: if_splits)+
    with post None ne have p: "ok" "token s' = Some ?u" "pending s' = []" "err s' = Some ?fin"
      by (simp_all add: scan_post_def)
    with sl t show ?thesis
      by (simp add: Scan_def Bytes_def Sinv_def to_come_def pending_def Err_def Err_of_def)
  qed
qed

lemma Scan_end:
  assumes "Sinv s" "to_come s = ([], fe)"
  shows "\<exists>s'. Scan s = (False, s') \<and> Err s' = fe"
proof (cases "err s = None")
  case False
  with assms show ?thesis
    by (auto simp: Sinv_def to_come_def Scan_def scan_loop_done Err_def)
next
  case True
  with assms(1) have wf: "wfS s" by (simp add: Sinv_def)
  let ?u = "pending s" and ?fin = "final (r s)"
  from assms(2) True have rec: "records ?u ?fin = ([], fe)"
    by (simp add: to_come_def)
  obtain ok s' where sl: "scan_loop s = (ok, s')" by (cases "scan_loop s")
  note post = scan_loop_spec[OF wf True, unfolded sl]
  show ?thesis
  proof (cases "?u = []")
    case True
    with rec have "fe = Err_of ?fin"
      by (subst (asm) records.simps) simp
    moreover from post True have "\<not> ok" "err s' = Some ?fin"
      by (simp_all add: scan_post_def MaxScanTokenSize_def)
    ultimately show ?thesis using sl
      by (simp add: Scan_def Err_def Err_of_def)
  next
    case False
    with rec have "IndexByte (take MaxScanTokenSize ?u) newline = None \<and>
        length ?u \<ge> MaxScanTokenSize \<and> fe = Some ErrTooLong"
      by (subst (asm) records.simps) (auto split: if_splits option.splits prod.splits)
    with post sl show ?thesis
      by (simp add: scan_post_def Scan_def Err_def)
  qed
qed

fun feed ::
  "StringLineFilter \<Rightarrow> string list \<Rightarrow> (string \<times> string list \<times> bool) \<times> error option" where
  "feed f [] = (([], [], False), None)"
| "feed f (t # ts) =
     (case f t of
        (lineStr, bufErr) \<Rightarrow>
          if bufErr \<noteq> None then (([], ts, True), bufErr)
          else if lineStr \<noteq> [] then ((lineStr, ts, True), None)
          else feed f ts)"

definition views :: "StreamReader \<Rightarrow> error option \<Rightarrow> string \<times> string list \<times> bool \<Rightarrow> bool" where
  "views sr fe v =
     (case v of (b, ts, live) \<Rightarrow>
        buffer sr = b \<and> existsData sr = live \<and>
        (if live then Sinv (scanner sr) \<and> to_come (scanner sr) = (ts, fe)
         else Err (scanner sr) = fe))"

definition view_Read ::
  "StringLineFilter \<Rightarrow> error option \<Rightarrow> nat \<Rightarrow> string \<times> string list \<times> bool \<Rightarrow>
   (string \<times> error option) \<times> (string \<times> string list \<times> bool)" where
  "view_Read f fe n v =
     (case v of (b, ts, live) \<Rightarrow>
        (case (if live then feed f ts else (([], ts, False), None)) of
           ((acc, ts1, live1), bufErr0) \<Rightarrow>
             let bufErr = (if \<not> live1 \<and> bufErr0 = None then fe else bufErr0)
             in case bufErr of
                  None \<Rightarrow>
                    (case Buffer_Read (b @ acc) n of (res, b2) \<Rightarrow> (res, (b2, ts1, live1)))
                | Some e \<Rightarrow> (([], Some e), (b @ acc, ts1, live1))))"

lemma read_loop_dead: "\<not> existsData sr \<Longrightarrow> read_loop sr = (sr, None)"
  by (subst read_loop.simps) simp

lemma read_loop_feed:
  "existsData sr \<Longrightarrow> Sinv (scanner sr) \<Longrightarrow> to_come (scanner sr) = (ts, fe) \<Longrightarrow>
   feed (filter_f sr) ts = ((acc, ts', live'), bufErr) \<Longrightarrow>
   \<exists>sr'. read_loop sr = (sr', bufErr) \<and> buffer sr' = buffer sr @ acc \<and>
         existsData sr' = live' \<and> filter_f sr' = filter_f sr \<and>
         (if live' then Sinv (scanner sr') \<and> to_come (scanner sr') = (ts', fe)
          else Err (scanner sr') = fe)"
proof (induction ts arbitrary: sr)
  case Nil
  from Scan_end[OF Nil(2,3)] obtain s' where s': "Scan (scanner sr) = (False, s')" "Err s' = fe"
    by blast
  with Nil(1,4) show ?case
    by (subst read_loop.simps) auto
next
  case (Cons t ts)
  from Scan_token[OF Cons.prems(2,3)] obtain s' where
    s': "Scan (scanner sr) = (True, s')" "Bytes s' = t" "Sinv s'" "to_come s' = (ts, fe)"
    by blast
  let ?sr1 = "sr\<lparr>scanner := s', existsData := True\<rparr>"
  obtain lineStr e where ft: "filter_f sr t = (lineStr, e)" by (cases "filter_f sr t")
  show ?case
  proof (cases "e = None \<and> lineStr = []")
    case True
    with Cons.prems(4) ft have fd: "feed (filter_f ?sr1) ts = ((acc, ts', live'), bufErr)"
      by simp
    have rl: "read_loop sr = read_loop ?sr1"
      using Cons.prems(1) s' ft True by (subst read_loop.simps) simp
    from Cons.IH[of ?sr1, OF _ _ _ fd] s' show ?thesis
      unfolding rl by simp
  next
    case False
    show ?thesis
    proof (cases e)
      case (Some x)
      have rl: "read_loop sr = (?sr1, Some x)"
        using Cons.prems(1) s' ft Some by (subst read_loop.simps) simp
      from Cons.prems(4) ft Some have "acc = []" "ts' = ts" "live'" "bufErr = Some x"
        by simp_all
      with rl s' show ?thesis by simp
    next
      case None
      with False have ne: "lineStr \<noteq> []" by simp
      have rl: "read_loop sr = (?sr1\<lparr>buffer := buffer sr @ lineStr\<rparr>, None)"
        using Cons.prems(1) s' ft None ne
        by (subst read_loop.simps) (simp add: Buffer_Write_def)
      from Cons.prems(4) ft None ne have "acc = lineStr" "ts' = ts" "live'" "bufErr = None"
        by simp_all
      with rl s' show ?thesis by simp
    qed
  qed
qed

lemma Read_view:
  assumes "views sr fe v" "view_Read (filter_f sr) fe n v = (res, v')"
  shows "\<exists>sr'. Read (Some sr) n = (res, Some sr') \<and> views sr' fe v' \<and> filter_f sr' = filter_f sr"
proof -
  obtain b ts live where v: "v = (b, ts, live)" by (cases v)
  show ?thesis
  proof (cases live)
    case False
    with assms v show ?thesis
      by (auto simp: views_def view_Read_def Read_def read_loop_dead Let_def
          split: option.splits prod.splits)
  next
    case True
    obtain acc ts1 live1 bufErr0 where fd: "feed (filter_f sr) ts = ((acc, ts1, live1), bufErr0)"
      by (metis prod_cases3 surj_pair)
    from assms(1) v True have "existsData sr" "Sinv (scanner sr)" "to_come (scanner sr) = (ts, fe)"
      "buffer sr = b"
      by (simp_all add: views_def)
    from read_loop_feed[OF this(1,2,3) fd] this(4) obtain sr1 where
      sr1: "read_loop sr = (sr1, bufErr0)" "buffer sr1 = b @ acc" "existsData sr1 = live1"
        "filter_f sr1 = filter_f sr"
        "if live1 then Sinv (scanner sr1) \<and> to_come (scanner sr1) = (ts1, fe)
         else Err (scanner sr1) = fe"
      by auto
    from assms(2) v True fd sr1 show ?thesis
      by (auto simp: views_def view_Read_def Read_def Let_def
          split: option.splits prod.splits if_splits)
  qed
qed

fun view_Reads ::
  "StringLineFilter \<Rightarrow> error option \<Rightarrow> nat list \<Rightarrow> string \<times> string list \<times> bool \<Rightarrow>
   (string \<times> error option) list \<times> (string \<times> string list \<times> bool)" where
  "view_Reads f fe [] v = ([], v)"
| "view_Reads f fe (n # ns) v =
     (case view_Read f fe n v of (res, v') \<Rightarrow>
        (case view_Reads f fe ns v' of (rs, v'') \<Rightarrow> (res # rs, v'')))"

fun view_read_seq ::
  "StringLineFilter \<Rightarrow> error option \<Rightarrow> nat list \<Rightarrow> string \<times> string list \<times> bool \<Rightarrow>
   (string \<times> error option) \<times> (string \<times> string list \<times> bool)" where
  "view_read_seq f fe [] v = (([], None), v)"
| "view_read_seq f fe (n # ns) v =
     (case view_Read f fe n v of
        ((out, Some e), v') \<Rightarrow> ((out, Some e), v')
      | ((out, None), v') \<Rightarrow>
          (case view_read_seq f fe ns v' of ((rest, e), v'') \<Rightarrow> ((out @ rest, e), v'')))"

lemma Reads_view:
  "views sr fe v \<Longrightarrow>
   \<exists>sr'. Reads ns (Some sr) = (fst (view_Reads (filter_f sr) fe ns v), Some sr') \<and>
         views sr' fe (snd (view_Reads (filter_f sr) fe ns v)) \<and> filter_f sr' = filter_f sr"
proof (induction ns arbitrary: sr v)
  case Nil
  then show ?case by simp
next
  case (Cons n ns)
  obtain res v' where vr: "view_Read (filter_f sr) fe n v = (res, v')"
    by (cases "view_Read (filter_f sr) fe n v")
  from Read_view[OF Cons.prems vr] obtain sr1 where
    sr1: "Read (Some sr) n = (res, Some sr1)" "views sr1 fe v'" "filter_f sr1 = filter_f sr"
    by blast
  from Cons.IH[OF sr1(2)] sr1(3) obtain sr2 where
    "Reads ns (Some sr1) = (fst (view_Reads (filter_f sr) fe ns v'), Some sr2)"
    "views sr2 fe (snd (view_Reads (filter_f sr) fe ns v'))" "filter_f sr2 = filter_f sr"
    by auto
  with vr sr1 show ?case
    by (auto split: prod.splits)
qed

lemma read_seq_view:
  "views sr fe v \<Longrightarrow>
   \<exists>sr'. read_seq ns (Some sr) = (fst (view_read_seq (filter_f sr) fe ns v), Some sr') \<and>
         views sr' fe (snd (view_read_seq (filter_f sr) fe ns v)) \<and> filter_f sr' = filter_f sr"
proof (induction ns arbitrary: sr v)
  case Nil
  then show ?case by simp
next
  case (Cons n ns)
  obtain out e v' where vr: "view_Read (filter_f sr) fe n v = ((out, e), v')"
    by (metis surj_pair)
  from Read_view[OF Cons.prems vr] obtain sr1 where
    sr1: "Read (Some sr) n = ((out, e), Some sr1)" "views sr1 fe v'" "filter_f sr1 = filter_f sr"
    by blast
  show ?case
  proof (cases e)
    case (Some x)
    with vr sr1 show ?thesis by simp
  next
    case None
    from Cons.IH[OF sr1(2)] sr1(3) obtain sr2 where
      "read_seq ns (Some sr1) = (fst (view_read_seq (filter_f sr) fe ns v'), Some sr2)"
      "views sr2 fe (snd (view_read_seq (filter_f sr) fe ns v'))" "filter_f sr2 = filter_f sr"
      by auto
    with vr sr1 None show ?thesis
      by (auto split: prod.splits)
  qed
qed

text \<open>A new reader on the upstream \<open>rd\<close>.\<close>

definition the_filter :: "StringLineFilter option \<Rightarrow> StringLineFilter" where
  "the_filter f = (case f of None \<Rightarrow> NopFilter | Some f' \<Rightarrow> f')"

lemma New_views:
  "\<exists>sr. NewStreamReader (Some rd) f = Some sr \<and> filter_f sr = the_filter f \<and>
        views sr (snd (records (data rd) (final rd))) ([], fst (records (data rd) (final rd)), True)"
  by (simp add: NewStreamReader_def views_def Sinv_NewScanner to_come_NewScanner the_filter_def)

lemma Reads_New:
  "fst (Reads ns (NewStreamReader (Some rd) f)) =
   fst (view_Reads (the_filter f) (snd (records (data rd) (final rd))) ns
          ([], fst (records (data rd) (final rd)), True))"
proof -
  from New_views[of rd f] obtain sr where
    sr: "NewStreamReader (Some rd) f = Some sr" "filter_f sr = the_filter f"
      "views sr (snd (records (data rd) (final rd))) ([], fst (records (data rd) (final rd)), True)"
    by blast
  from Reads_view[OF sr(3), of ns] sr(1,2) show ?thesis by auto
qed

lemma read_seq_New:
  "fst (read_seq ns (NewStreamReader (Some rd) f)) =
   fst (view_read_seq (the_filter f) (snd (records (data rd) (final rd))) ns
          ([], fst (records (data rd) (final rd)), True))"
proof -
  from New_views[of rd f] obtain sr where
    sr: "NewStreamReader (Some rd) f = Some sr" "filter_f sr = the_filter f"
      "views sr (snd (records (data rd) (final rd))) ([], fst (records (data rd) (final rd)), True)"
    by blast
  from read_seq_view[OF sr(3), of ns] sr(1,2) show ?thesis by auto
qed

lemma buffer_Reads_New:
  "map_option buffer (snd (Reads ns (NewStreamReader (Some rd) f))) =
   Some (fst (snd (view_Reads (the_filter f) (snd (records (data rd) (final rd))) ns
          ([], fst (records (data rd) (final rd)), True))))"
proof -
  from New_views[of rd f] obtain sr where
    sr: "NewStreamReader (Some rd) f = Some sr" "filter_f sr = the_filter f"
      "views sr (snd (records (data rd) (final rd))) ([], fst (records (data rd) (final rd)), True)"
    by blast
  from Reads_view[OF sr(3), of ns] sr(1,2) show ?thesis
    by (cases "snd (view_Reads (the_filter f) (snd (records (data rd) (final rd))) ns
          ([], fst (records (data rd) (final rd)), True))") (auto simp: views_def)
qed

lemma records_short:
  "length u < MaxScanTokenSize \<Longrightarrow>
   records u fin =
     (if u = [] then ([], Err_of fin)
      else case IndexByte u newline of
             Some i \<Rightarrow> (take (Suc i) u # fst (records (drop (Suc i) u) fin),
                        snd (records (drop (Suc i) u) fin))
           | None \<Rightarrow> ([u], Err_of fin))"
  by (subst records.simps) (simp split: option.splits prod.splits)

lemma Reads_None: "Reads ns None = (replicate (length ns) ([], Some ErrNilReader), None)"
  by (induction ns) (simp_all add: Read_def)

text \<open>
  C7.  A reader made from a nil source is nil, and every call of \<open>Read\<close> on it, however
  many follow and whatever the destination lengths, returns no bytes and
  \<open>ErrNilReader\<close>, which is not \<open>io.EOF\<close>.
\<close>

theorem C7_nil_reader:
  "NewStreamReader None f = None \<and>
   Reads ns (NewStreamReader None f) = (replicate (length ns) ([], Some ErrNilReader), None) \<and>
   Read (NewStreamReader None f) n = (([], Some ErrNilReader), None) \<and>
   ErrNilReader \<noteq> EOF"
  by (simp add: NewStreamReader_def Reads_None Read_def)

theorem C7_nil_reader_witness:
  "NewStreamReader None (Some NopFilter) = None \<and>
   Reads [10, 0, 1] (NewStreamReader None (Some NopFilter)) =
     ([([], Some ErrNilReader), ([], Some ErrNilReader), ([], Some ErrNilReader)], None) \<and>
   Read (NewStreamReader None (Some NopFilter)) 10 = (([], Some ErrNilReader), None)"
  using C7_nil_reader[of "Some NopFilter" "[10, 0, 1]" 10] by (auto simp del: Reads.simps)

text \<open>
  C9.  A call of \<open>Read\<close> on a reader that is not nil that returns an error returns no
  bytes: the count is zero.
\<close>

theorem C9_error_means_zero_bytes:
  "Read (Some sr) n = ((out, Some e), sr') \<Longrightarrow> length out = 0"
  by (auto simp: Read_def Buffer_Read_def Let_def split: prod.splits option.splits if_splits)


lemma Read_New:
  "fst (Read (NewStreamReader (Some rd) f) n) =
   fst (view_Read (the_filter f) (snd (records (data rd) (final rd))) n
          ([], fst (records (data rd) (final rd)), True))"
proof -
  from New_views[of rd f] obtain sr where
    sr: "NewStreamReader (Some rd) f = Some sr" "filter_f sr = the_filter f"
      "views sr (snd (records (data rd) (final rd))) ([], fst (records (data rd) (final rd)), True)"
    by blast
  obtain res v' where vr: "view_Read (filter_f sr) (snd (records (data rd) (final rd))) n
          ([], fst (records (data rd) (final rd)), True) = (res, v')"
    by (cases "view_Read (filter_f sr) (snd (records (data rd) (final rd))) n
          ([], fst (records (data rd) (final rd)), True)")
  from Read_view[OF sr(3) vr] sr(1,2) vr show ?thesis by auto
qed

text \<open>Filters for examples: \<open>fail_on bad e\<close> fails with \<open>e\<close> on the record \<open>bad\<close>
  and passes every other record on unchanged, as the filter of the test
  \<open>TestStreamReader_Read_FilterError\<close> does.\<close>

definition fail_on :: "string \<Rightarrow> error \<Rightarrow> StringLineFilter" where
  "fail_on bad e line = (if line = bad then ([], Some e) else (line, None))"

lemmas eval_simps =
  records_short MaxScanTokenSize_def Err_of_def the_filter_def NopFilter_def
  view_Read_def Buffer_Read_def fail_on_def

theorem C9_error_means_zero_bytes_witness:
  "\<exists>sr'. Read (NewStreamReader (Some \<lparr>data = ''ab\<newline>'', final = EOF\<rparr>)
              (Some (fail_on ''ab\<newline>'' (ErrOther ''bad'')))) 10
          = (([], Some (ErrOther ''bad'')), sr') \<and> length ([] :: string) = 0"
proof -
  let ?sr = "NewStreamReader (Some \<lparr>data = ''ab\<newline>'', final = EOF\<rparr>)
              (Some (fail_on ''ab\<newline>'' (ErrOther ''bad'')))"
  obtain sr0 where sr0: "?sr = Some sr0" by (simp add: NewStreamReader_def)
  have "fst (Read ?sr 10) = ([], Some (ErrOther ''bad''))"
    by (subst Read_New) (simp add: eval_simps)
  then obtain sr' where r: "Read (Some sr0) 10 = (([], Some (ErrOther ''bad'')), sr')"
    unfolding sr0 by (cases "Read (Some sr0) 10") auto
  from C9_error_means_zero_bytes[OF r] r show ?thesis
    unfolding sr0 by blast
qed

lemma read_loop_cases:
  "read_loop sr = (sr1, be) \<Longrightarrow>
     filter_f sr1 = filter_f sr \<and>
     ((\<not> existsData sr1 \<and> be = None \<and> buffer sr1 = buffer sr) \<or>
      (existsData sr1 \<and> (\<exists>e t s. be = Some e \<and> filter_f sr t = (s, Some e)) \<and>
         buffer sr1 = buffer sr) \<or>
      (existsData sr1 \<and> be = None \<and>
         (\<exists>t s. filter_f sr t = (s, None) \<and> s \<noteq> [] \<and> buffer sr1 = buffer sr @ s)))"
proof (induction "unread (scanner sr)" arbitrary: sr rule: less_induct)
  case less
  show ?case
  proof (cases "existsData sr")
    case False
    with less.prems show ?thesis by (simp add: read_loop_dead)
  next
    case True
    obtain ok sc where sc: "Scan (scanner sr) = (ok, sc)" by (cases "Scan (scanner sr)")
    let ?sr1 = "sr\<lparr>scanner := sc, existsData := ok\<rparr>"
    show ?thesis
    proof (cases ok)
      case False
      with less.prems True sc show ?thesis
        by (subst (asm) read_loop.simps) auto
    next
      case ok: True
      obtain lineStr e where ft: "filter_f sr (Bytes sc) = (lineStr, e)"
        by (cases "filter_f sr (Bytes sc)")
      show ?thesis
      proof (cases "e = None \<and> lineStr = []")
        case True
        have rl: "read_loop sr = read_loop ?sr1"
          using \<open>existsData sr\<close> sc ok ft True by (subst read_loop.simps) simp
        have "unread (scanner ?sr1) < unread (scanner sr)"
          using scan_loop_unread[of "scanner sr" ok sc] sc ok by (simp add: Scan_def)
        from less.hyps[OF this] less.prems rl show ?thesis by simp
      next
        case False
        show ?thesis
        proof (cases e)
          case (Some x)
          have "read_loop sr = (?sr1, Some x)"
            using \<open>existsData sr\<close> sc ok ft Some by (subst read_loop.simps) simp
          with less.prems have "sr1 = ?sr1" "be = Some x" by simp_all
          with ft Some ok show ?thesis by auto
        next
          case None
          with False have ne: "lineStr \<noteq> []" by simp
          have "read_loop sr = (?sr1\<lparr>buffer := buffer sr @ lineStr\<rparr>, None)"
            using \<open>existsData sr\<close> sc ok ft None ne
            by (subst read_loop.simps) (simp add: Buffer_Write_def)
          with less.prems have "sr1 = ?sr1\<lparr>buffer := buffer sr @ lineStr\<rparr>" "be = None"
            by simp_all
          with ft None ok ne show ?thesis by auto
        qed
      qed
    qed
  qed
qed

lemma Read_dead:
  "\<not> existsData sr \<Longrightarrow>
   Read (Some sr) n =
     (case Err (scanner sr) of
        Some e \<Rightarrow> (([], Some e), Some sr)
      | None \<Rightarrow> (fst (Buffer_Read (buffer sr) n),
                  Some (sr\<lparr>buffer := snd (Buffer_Read (buffer sr) n)\<rparr>)))"
  by (simp add: Read_def read_loop_dead split: option.splits prod.splits)

lemma Read_Some: "\<exists>sr'. snd (Read (Some sr) n) = Some sr'"
  by (auto simp: Read_def Let_def split: option.splits prod.splits)

lemma Buffer_Read_parts:
  "fst (fst (Buffer_Read b n)) @ snd (Buffer_Read b n) = b"
  by (simp add: Buffer_Read_def)

lemma Reads_dead:
  "\<not> existsData sr \<Longrightarrow> Reads ns (Some sr) = (rs, sr') \<Longrightarrow>
   \<exists>b. sr' = Some (sr\<lparr>buffer := b\<rparr>) \<and> concat (map fst rs) @ b = buffer sr"
proof (induction ns arbitrary: sr rs)
  case Nil
  then show ?case by (auto intro: exI[of _ "buffer sr"])
next
  case (Cons n ns)
  show ?case
  proof (cases "Err (scanner sr)")
    case (Some e)
    with Cons.prems(1) have rd: "Read (Some sr) n = (([], Some e), Some sr)"
      by (simp add: Read_dead)
    obtain rs1 where rs1: "Reads ns (Some sr) = (rs1, sr')" "rs = ([], Some e) # rs1"
      using Cons.prems(2) rd by (auto split: prod.splits)
    from Cons.IH[OF Cons.prems(1) rs1(1)] rs1(2) show ?thesis by auto
  next
    case None
    let ?res = "fst (Buffer_Read (buffer sr) n)" and ?b = "snd (Buffer_Read (buffer sr) n)"
    let ?sr1 = "sr\<lparr>buffer := ?b\<rparr>"
    from None Cons.prems(1) have rd: "Read (Some sr) n = (?res, Some ?sr1)"
      by (simp add: Read_dead)
    obtain rs1 where rs1: "Reads ns (Some ?sr1) = (rs1, sr')" "rs = ?res # rs1"
      using Cons.prems(2) rd by (auto split: prod.splits)
    have "\<not> existsData ?sr1" using Cons.prems(1) by simp
    from Cons.IH[OF this rs1(1)] obtain b where
      b: "sr' = Some (?sr1\<lparr>buffer := b\<rparr>)" "concat (map fst rs1) @ b = ?b" by auto
    have "concat (map fst rs) @ b = buffer sr"
      using b(2) rs1(2) Buffer_Read_parts[of "buffer sr" n] by simp
    with b(1) show ?thesis by auto
  qed
qed

lemma Read_error_exhausted:
  assumes "Read (Some sr0) n = ((out, Some e), Some sr)"
    and "\<forall>t s. filter_f sr0 t \<noteq> (s, Some e)"
  shows "\<not> existsData sr"
proof -
  obtain sr1 be where rl: "read_loop sr0 = (sr1, be)" by (cases "read_loop sr0")
  from read_loop_cases[OF rl] assms rl show ?thesis
    by (auto simp: Read_def Let_def Buffer_Read_def split: option.splits prod.splits if_splits)
qed

text \<open>
  C1, as amended.  Once a call of \<open>Read\<close> has returned an error that is not an error of
  the filter (end of data, or a failure of the source), the scanner has reported that
  nothing is left, and the stream is terminal for good: whatever calls follow, the scanner
  is not touched again, no record is pulled, and the bytes delivered are bytes that
  were already in the carry-over buffer.
\<close>

theorem C1_exhausted_stream_is_terminal:
  assumes "Read (Some sr0) n = ((out, Some e), Some sr)"
    and "\<forall>t s. filter_f sr0 t \<noteq> (s, Some e)"
    and "Reads ns (Some sr) = (rs, sr')"
  shows "\<not> existsData sr \<and>
         (\<exists>b. sr' = Some (sr\<lparr>buffer := b\<rparr>) \<and> concat (map fst rs) @ b = buffer sr)"
  using Read_error_exhausted[OF assms(1,2)] Reads_dead[OF _ assms(3)] by blast

text \<open>
  The claim as stated fails after an error of the filter: the filter fails on the second
  of three records, the second call returns that error, and the third call pulls the
  third record and delivers it.
\<close>

theorem C1_counterexample:
  "fst (Reads [10, 10, 10]
         (NewStreamReader (Some \<lparr>data = ''a\<newline>b\<newline>c\<newline>'', final = EOF\<rparr>)
            (Some (fail_on ''b\<newline>'' (ErrOther ''boom''))))) =
   [(''a\<newline>'', None), ([], Some (ErrOther ''boom'')), (''c\<newline>'', None)]"
  by (subst Reads_New) (simp add: eval_simps)

theorem C1_exhausted_stream_is_terminal_witness:
  "\<exists>sr rs sr'.
     Read (NewStreamReader (Some \<lparr>data = [], final = EOF\<rparr>) None) 10 = (([], Some EOF), Some sr) \<and>
     (\<forall>t s. NopFilter t \<noteq> (s, Some EOF)) \<and>
     Reads [5, 5] (Some sr) = (rs, sr') \<and>
     \<not> existsData sr \<and>
     (\<exists>b. sr' = Some (sr\<lparr>buffer := b\<rparr>) \<and> concat (map fst rs) @ b = buffer sr)"
proof -
  let ?sr0 = "\<lparr>scanner = NewScanner \<lparr>data = [], final = EOF\<rparr>, filter_f = NopFilter,
               buffer = [], existsData = True\<rparr>"
  have new: "NewStreamReader (Some \<lparr>data = [], final = EOF\<rparr>) None = Some ?sr0"
    by (simp add: NewStreamReader_def)
  have "fst (Read (NewStreamReader (Some \<lparr>data = [], final = EOF\<rparr>) None) 10) = ([], Some EOF)"
    by (subst Read_New) (simp add: eval_simps)
  moreover obtain sr where "snd (Read (Some ?sr0) 10) = Some sr"
    using Read_Some[of ?sr0 10] by blast
  ultimately have rd: "Read (Some ?sr0) 10 = (([], Some EOF), Some sr)"
    unfolding new by (cases "Read (Some ?sr0) 10") auto
  have nf: "\<forall>t s. filter_f ?sr0 t \<noteq> (s, Some EOF)"
    by (simp add: NopFilter_def)
  obtain rs sr' where rs: "Reads [5, 5] (Some sr) = (rs, sr')"
    by (cases "Reads [5, 5] (Some sr)")
  from C1_exhausted_stream_is_terminal[OF rd nf rs] rd rs nf show ?thesis
    unfolding new by (intro exI[of _ sr] exI[of _ rs] exI[of _ sr']) simp
qed

lemma Read_detects_source_error:
  assumes "existsData sr" "Scan (scanner sr) = (False, sc)" "Err sc = Some e"
  shows "Read (Some sr) n = (([], Some e), Some (sr\<lparr>scanner := sc, existsData := False\<rparr>))"
proof -
  have "read_loop sr = (sr\<lparr>scanner := sc, existsData := False\<rparr>, None)"
    using assms(1,2) by (subst read_loop.simps) simp
  with assms(3) show ?thesis
    by (simp add: Read_def)
qed

lemma Reads_source_error:
  "\<not> existsData sr \<Longrightarrow> Err (scanner sr) = Some e \<Longrightarrow>
   Reads ns (Some sr) = (replicate (length ns) ([], Some e), Some sr)"
  by (induction ns) (simp_all add: Read_dead)

text \<open>
  C2, as amended.  The call of \<open>Read\<close> in which the scanner reports a failure of the
  source returns that error with no bytes, whatever the carry-over buffer holds, and so
  does every later call: the buffer is left as it was and its bytes are never delivered.
\<close>

theorem C2_source_error_preempts_buffer:
  assumes "existsData sr" "Scan (scanner sr) = (False, sc)" "Err sc = Some e"
  shows "Reads (n # ns) (Some sr) =
           (replicate (Suc (length ns)) ([], Some e),
            Some (sr\<lparr>scanner := sc, existsData := False\<rparr>)) \<and>
         buffer (sr\<lparr>scanner := sc, existsData := False\<rparr>) = buffer sr"
  using Read_detects_source_error[OF assms, of n]
    Reads_source_error[of "sr\<lparr>scanner := sc, existsData := False\<rparr>" e ns] assms(3)
  by simp

text \<open>
  The claim as stated fails: the source hands over one record and then fails; the first
  call takes one byte of the record, the second call returns the error of the source
  while two bytes of the record are still in the buffer, and they stay there.
\<close>

theorem C2_counterexample:
  "fst (Reads [1, 1, 1]
         (NewStreamReader (Some \<lparr>data = ''ab\<newline>'', final = ErrOther ''io''\<rparr>) None)) =
     [(''a'', None), ([], Some (ErrOther ''io'')), ([], Some (ErrOther ''io''))] \<and>
   map_option buffer
     (snd (Reads [1, 1, 1]
         (NewStreamReader (Some \<lparr>data = ''ab\<newline>'', final = ErrOther ''io''\<rparr>) None))) =
     Some ''b\<newline>''"
  by (subst Reads_New, subst buffer_Reads_New) (simp add: eval_simps)

theorem C2_source_error_preempts_buffer_witness:
  "\<exists>sc. Scan (NewScanner \<lparr>data = [], final = ErrOther ''io''\<rparr>) = (False, sc) \<and>
        Err sc = Some (ErrOther ''io'') \<and>
        Reads [4, 4]
          (Some \<lparr>scanner = NewScanner \<lparr>data = [], final = ErrOther ''io''\<rparr>,
                 filter_f = NopFilter, buffer = ''b\<newline>'', existsData = True\<rparr>) =
          ([([], Some (ErrOther ''io'')), ([], Some (ErrOther ''io''))],
           Some \<lparr>scanner = sc, filter_f = NopFilter, buffer = ''b\<newline>'',
                 existsData = False\<rparr>)"
proof -
  let ?rd = "\<lparr>data = [], final = ErrOther ''io''\<rparr>"
  let ?sr = "\<lparr>scanner = NewScanner ?rd, filter_f = NopFilter, buffer = ''b\<newline>'',
              existsData = True\<rparr>"
  have "to_come (NewScanner ?rd) = ([], Some (ErrOther ''io''))"
    by (simp add: to_come_NewScanner eval_simps)
  from Scan_end[OF Sinv_NewScanner this] obtain sc where
    sc: "Scan (NewScanner ?rd) = (False, sc)" "Err sc = Some (ErrOther ''io'')"
    by blast
  have "existsData ?sr" "Scan (scanner ?sr) = (False, sc)"
    using sc by simp_all
  from C2_source_error_preempts_buffer[OF this sc(2), of 4 "[4]"] sc show ?thesis
    by (intro exI[of _ sc]) (simp del: Reads.simps)
qed

text \<open>
  \<open>kept f t\<close> is what a record \<open>t\<close> adds to the carry-over buffer when it is pulled:
  the output of the filter, and nothing when the filter returns an error.  A record
  counts as accepted when that is not empty.
\<close>

definition kept :: "StringLineFilter \<Rightarrow> string \<Rightarrow> string" where
  "kept f t = (case f t of (s, None) \<Rightarrow> s | (s, Some e) \<Rightarrow> [])"

definition accepted :: "StringLineFilter \<Rightarrow> string list \<Rightarrow> string list" where
  "accepted f ts = filter (\<lambda>t. kept f t \<noteq> []) ts"

lemma accepted_simps [simp]:
  "accepted f [] = []"
  "accepted f (t # ts) = (if kept f t \<noteq> [] then t # accepted f ts else accepted f ts)"
  "accepted f (xs @ ys) = accepted f xs @ accepted f ys"
  by (simp_all add: accepted_def)






lemma Reads_Some: "\<exists>sr'. snd (Reads ns (Some sr)) = Some sr'"
proof (induction ns arbitrary: sr)
  case Nil
  then show ?case by simp
next
  case (Cons n ns)
  obtain res sr1 where rd: "Read (Some sr) n = (res, Some sr1)"
    using Read_Some[of sr n] by (cases "Read (Some sr) n") auto
  from Cons.IH[of sr1] rd show ?case
    by (auto split: prod.splits)
qed






text \<open>\<open>passed f ts\<close>: what the filter lets through of the records \<open>ts\<close>, in order.\<close>

definition passed :: "StringLineFilter \<Rightarrow> string list \<Rightarrow> string" where
  "passed f ts = concat (map (\<lambda>t. fst (f t)) ts)"

lemma passed_simps [simp]:
  "passed f [] = []" "passed f (t # ts) = fst (f t) @ passed f ts"
  "passed f (xs @ ys) = passed f xs @ passed f ys"
  by (simp_all add: passed_def)

lemma feed_no_error:
  "\<forall>t \<in> set ts. snd (f t) = None \<Longrightarrow> feed f ts = ((acc, ts', live'), be) \<Longrightarrow>
   be = None \<and>
   ((\<not> live' \<and> acc = [] \<and> ts' = [] \<and> passed f ts = []) \<or>
    (live' \<and> acc \<noteq> [] \<and> (\<exists>ys. ts = ys @ ts' \<and> passed f ys = acc)))"
proof (induction ts)
  case Nil
  then show ?case by simp
next
  case (Cons t ts)
  obtain s where ft: "f t = (s, None)"
    using Cons.prems(1) by (cases "f t") auto
  show ?case
  proof (cases "s = []")
    case True
    with Cons.prems ft have fd: "feed f ts = ((acc, ts', live'), be)" by simp
    from Cons.IH[OF _ fd] Cons.prems(1) have ih: "be = None \<and>
      ((\<not> live' \<and> acc = [] \<and> ts' = [] \<and> passed f ts = []) \<or>
       (live' \<and> acc \<noteq> [] \<and> (\<exists>ys. ts = ys @ ts' \<and> passed f ys = acc)))" by simp
    show ?thesis
    proof (cases live')
      case False
      with ih ft True show ?thesis by simp
    next
      case live: True
      with ih obtain ys where "ts = ys @ ts'" "passed f ys = acc" "acc \<noteq> []" by auto
      then have "t # ts = (t # ys) @ ts'" "passed f (t # ys) = acc"
        using ft True by simp_all
      with ih live \<open>acc \<noteq> []\<close> show ?thesis by blast
    qed
  next
    case False
    with Cons.prems(2) ft have "acc = s" "ts' = ts" "live'" "be = None" by simp_all
    moreover have "t # ts = [t] @ ts" "passed f [t] = s" using ft by simp_all
    ultimately show ?thesis using False by blast
  qed
qed

text \<open>What is still to be delivered in a view: the buffer, then what passes the filter.\<close>

fun pot :: "StringLineFilter \<Rightarrow> string \<times> string list \<times> bool \<Rightarrow> string" where
  "pot f (b, ts, live) = b @ (if live then passed f ts else [])"

lemma view_Read_no_error:
  assumes ok: "\<forall>t \<in> set ts. snd (f t) = None"
    and vr: "view_Read f None n (b, ts, live) = ((out, e), (b', ts', live'))"
  shows "set ts' \<subseteq> set ts \<and>
         (e = None \<longrightarrow> out @ pot f (b', ts', live') = pot f (b, ts, live) \<and> (0 < n \<longrightarrow> out \<noteq> [])) \<and>
         (e \<noteq> None \<longrightarrow> e = Some EOF \<and> out = [] \<and> pot f (b, ts, live) = [])"
proof (cases live)
  case False
  with vr show ?thesis
    by (auto simp: view_Read_def Buffer_Read_def split: if_splits)
next
  case True
  obtain acc ts1 live1 be where fd: "feed f ts = ((acc, ts1, live1), be)"
    by (metis prod_cases3 surj_pair)
  note fe = feed_no_error[OF ok fd]
  then have be: "be = None" by simp
  show ?thesis
  proof (cases live1)
    case False
    with fe have "acc = []" "ts1 = []" "passed f ts = []" by auto
    with vr True fd be False show ?thesis
      by (auto simp: view_Read_def Buffer_Read_def split: if_splits)
  next
    case live1: True
    with fe obtain ys where ys: "ts = ys @ ts1" "passed f ys = acc" "acc \<noteq> []" by auto
    from vr True fd be live1 ys(3)
    have r: "out = take n (b @ acc)" "e = None" "b' = drop n (b @ acc)" "ts' = ts1" "live'"
      by (auto simp: view_Read_def Buffer_Read_def split: if_splits)
    have "out @ pot f (b', ts', live') = (take n (b @ acc) @ drop n (b @ acc)) @ passed f ts1"
      using r by (simp del: take_append drop_append)
    also have "\<dots> = (b @ acc) @ passed f ts1"
      by (simp only: append_take_drop_id)
    also have "\<dots> = pot f (b, ts, live)"
      using True ys by simp
    finally have "out @ pot f (b', ts', live') = pot f (b, ts, live)" .
    moreover have "0 < n \<longrightarrow> out \<noteq> []" using r(1) ys(3) by auto
    moreover have "set ts' \<subseteq> set ts" using r ys by auto
    ultimately show ?thesis using r(2) by simp
  qed
qed

lemma view_read_seq_no_error:
  assumes "\<forall>t \<in> set ts. snd (f t) = None" "\<forall>n \<in> set ns. 0 < n"
    and "view_read_seq f None ns (b, ts, live) = ((out, er), v')"
  shows "(er = None \<longrightarrow> out @ pot f v' = pot f (b, ts, live) \<and> length ns \<le> length out) \<and>
         (er \<noteq> None \<longrightarrow> er = Some EOF \<and> out = pot f (b, ts, live))"
  using assms
proof (induction ns arbitrary: b ts live out)
  case Nil
  then show ?case by simp
next
  case (Cons n ns)
  obtain o1 e1 b1 ts1 live1 where
    vr: "view_Read f None n (b, ts, live) = ((o1, e1), (b1, ts1, live1))"
    by (metis prod_cases3 surj_pair)
  note one = view_Read_no_error[OF Cons.prems(1) vr]
  show ?case
  proof (cases e1)
    case (Some x)
    with one Cons.prems(3) vr show ?thesis by auto
  next
    case None
    obtain o2 where
      vs: "view_read_seq f None ns (b1, ts1, live1) = ((o2, er), v')" and out: "out = o1 @ o2"
      using Cons.prems(3) vr None by (auto split: prod.splits)
    have ok1: "\<forall>t \<in> set ts1. snd (f t) = None" using one Cons.prems(1) by auto
    have pos: "\<forall>n \<in> set ns. 0 < n" using Cons.prems(2) by simp
    note ih = Cons.IH[OF ok1 pos vs]
    from one None have o1: "o1 @ pot f (b1, ts1, live1) = pot f (b, ts, live)" "o1 \<noteq> []"
      using Cons.prems(2) by auto
    show ?thesis
    proof (cases er)
      case None
      with ih have i: "o2 @ pot f v' = pot f (b1, ts1, live1)" "length ns \<le> length o2" by auto
      have "out @ pot f v' = o1 @ (o2 @ pot f v')" using out by simp
      also have "\<dots> = pot f (b, ts, live)" using i(1) o1(1) by simp
      finally have "out @ pot f v' = pot f (b, ts, live)" .
      moreover have "length (n # ns) \<le> length out"
        using o1(2) i(2) out by (cases o1) simp_all
      ultimately show ?thesis using None by simp
    next
      case (Some y)
      with ih have "er = Some EOF" "o2 = pot f (b1, ts1, live1)" by auto
      with o1 out show ?thesis by auto
    qed
  qed
qed

lemma view_read_seq_complete:
  assumes "\<forall>t \<in> set ts. snd (f t) = None" "\<forall>n \<in> set ns. 0 < n"
    and "length (pot f (b, ts, live)) < length ns"
  shows "fst (view_read_seq f None ns (b, ts, live)) = (pot f (b, ts, live), Some EOF)"
proof -
  obtain out er v' where vs: "view_read_seq f None ns (b, ts, live) = ((out, er), v')"
    by (metis surj_pair)
  note s = view_read_seq_no_error[OF assms(1,2) vs]
  have "er \<noteq> None"
  proof
    assume "er = None"
    with s have "out @ pot f v' = pot f (b, ts, live)" "length ns \<le> length out" by auto
    then have "length ns \<le> length (pot f (b, ts, live))"
      by (metis le_add1 le_trans length_append)
    with assms(3) show False by simp
  qed
  with s vs show ?thesis by auto
qed


lemma read_seq_no_error:
  assumes "records (data rd) (final rd) = (ts, None)"
    and "\<forall>t \<in> set ts. snd (g t) = None"
    and "\<forall>n \<in> set ns. 0 < n"
  shows "(\<forall>out e. fst (read_seq ns (NewStreamReader (Some rd) (Some g))) = (out, Some e) \<longrightarrow>
            out = passed g ts \<and> e = EOF) \<and>
         (length (passed g ts) < length ns \<longrightarrow>
            fst (read_seq ns (NewStreamReader (Some rd) (Some g))) = (passed g ts, Some EOF))"
proof -
  have eq: "fst (read_seq ns (NewStreamReader (Some rd) (Some g))) =
            fst (view_read_seq g None ns ([], ts, True))"
    by (subst read_seq_New) (simp add: assms(1) the_filter_def)
  obtain out er v' where vs: "view_read_seq g None ns ([], ts, True) = ((out, er), v')"
    by (metis surj_pair)
  from view_read_seq_no_error[OF assms(2,3) vs] vs
  have "\<forall>out e. fst (view_read_seq g None ns ([], ts, True)) = (out, Some e) \<longrightarrow>
            out = passed g ts \<and> e = EOF"
    by auto
  moreover from view_read_seq_complete[OF assms(2,3), of "[]" True]
  have "length (passed g ts) < length ns \<longrightarrow>
          fst (view_read_seq g None ns ([], ts, True)) = (passed g ts, Some EOF)"
    by simp
  ultimately show ?thesis unfolding eq by blast
qed

text \<open>
  C4, as amended.  When the scanner splits the input without an error (the source ends
  with \<open>io.EOF\<close> and no record is too long for the buffer) and the filter returns no
  error on its records, the sizes of the destinations do not matter, as long as none is
  empty: every sequence of calls that runs into an error has then delivered what the
  filter lets through of all records, and the error is \<open>io.EOF\<close>; and more calls than
  there are bytes to deliver always get there.
\<close>

theorem C4_destination_sizes_without_errors:
  assumes "records (data rd) (final rd) = (ts, None)"
    and "\<forall>t \<in> set ts. snd (g t) = None"
    and "\<forall>n \<in> set ns. 0 < n"
  shows "(\<forall>out e. fst (read_seq ns (NewStreamReader (Some rd) (Some g))) = (out, Some e) \<longrightarrow>
            out = passed g ts \<and> e = EOF) \<and>
         (length (passed g ts) < length ns \<longrightarrow>
            fst (read_seq ns (NewStreamReader (Some rd) (Some g))) = (passed g ts, Some EOF))"
  using assms by (rule read_seq_no_error)

text \<open>
  The claim as stated fails when the filter fails: with destinations of one byte the
  error of the filter on the second record comes after one byte of the first record, with
  large destinations after all three.
\<close>

theorem C4_counterexample:
  "fst (read_seq [1, 1, 1, 1, 1, 1, 1]
         (NewStreamReader (Some \<lparr>data = ''ab\<newline>cd\<newline>'', final = EOF\<rparr>)
            (Some (fail_on ''cd\<newline>'' (ErrOther ''boom''))))) =
     (''a'', Some (ErrOther ''boom'')) \<and>
   fst (read_seq [100, 100, 100]
         (NewStreamReader (Some \<lparr>data = ''ab\<newline>cd\<newline>'', final = EOF\<rparr>)
            (Some (fail_on ''cd\<newline>'' (ErrOther ''boom''))))) =
     (''ab\<newline>'', Some (ErrOther ''boom''))"
  by (subst read_seq_New, subst read_seq_New) (simp add: eval_simps)

theorem C4_destination_sizes_without_errors_witness:
  "fst (read_seq [1, 1, 1, 1, 1, 1, 1]
         (NewStreamReader (Some \<lparr>data = ''ab\<newline>cd\<newline>'', final = EOF\<rparr>) (Some NopFilter))) =
     (''ab\<newline>cd\<newline>'', Some EOF) \<and>
   fst (read_seq [100, 100, 100]
         (NewStreamReader (Some \<lparr>data = ''ab\<newline>cd\<newline>'', final = EOF\<rparr>) (Some NopFilter))) =
     (''ab\<newline>cd\<newline>'', Some EOF)"
proof -
  let ?rd = "\<lparr>data = ''ab\<newline>cd\<newline>'', final = EOF\<rparr>"
  have rec: "records (data ?rd) (final ?rd) = ([''ab\<newline>'', ''cd\<newline>''], None)"
    by (simp add: eval_simps)
  have ok: "\<forall>t \<in> set [''ab\<newline>'', ''cd\<newline>'']. snd (NopFilter t) = None"
    by (simp add: NopFilter_def)
  have p: "passed NopFilter [''ab\<newline>'', ''cd\<newline>''] = ''ab\<newline>cd\<newline>''"
    by (simp add: NopFilter_def)
  have one: "\<forall>n \<in> set [1, 1, 1, 1, 1, 1, 1 :: nat]. 0 < n" by simp
  have big: "fst (read_seq [100, 100, 100] (NewStreamReader (Some ?rd) (Some NopFilter))) =
     (''ab\<newline>cd\<newline>'', Some EOF)"
    by (subst read_seq_New) (simp add: eval_simps)
  from C4_destination_sizes_without_errors[OF rec ok one] big show ?thesis
    unfolding p by (simp del: read_seq.simps)
qed

text \<open>
  An input fits the scanner when every \<open>MaxScanTokenSize\<close> bytes in a row of it hold a
  newline: then no record, and no unfinished record before the next read, fills the
  buffer at its largest size.
\<close>

definition fits :: "string \<Rightarrow> bool" where
  "fits d \<longleftrightarrow>
     (\<forall>k. k + MaxScanTokenSize \<le> length d \<longrightarrow>
          newline \<in> set (take MaxScanTokenSize (drop k d)))"

lemma fits_drop: "fits d \<Longrightarrow> fits (drop j d)"
  unfolding fits_def
proof (intro allI impI)
  fix k
  assume a: "\<forall>k. k + MaxScanTokenSize \<le> length d \<longrightarrow>
               newline \<in> set (take MaxScanTokenSize (drop k d))"
    and b: "k + MaxScanTokenSize \<le> length (drop j d)"
  from b have "(k + j) + MaxScanTokenSize \<le> length d" by (simp add: MaxScanTokenSize_def)
  with a have "newline \<in> set (take MaxScanTokenSize (drop (k + j) d))" by blast
  then show "newline \<in> set (take MaxScanTokenSize (drop k (drop j d)))"
    by simp
qed

lemma records_fits:
  "fits u \<Longrightarrow> snd (records u fin) = Err_of fin \<and> concat (fst (records u fin)) = u"
proof (induction "length u" arbitrary: u rule: less_induct)
  case less
  show ?case
  proof (cases "u = []")
    case True
    then show ?thesis by (subst records.simps, subst (2) records.simps) simp
  next
    case False
    show ?thesis
    proof (cases "IndexByte (take MaxScanTokenSize u) newline")
      case None
      then have nonl: "newline \<notin> set (take MaxScanTokenSize u)"
        by (simp add: IndexByte_None)
      have "\<not> MaxScanTokenSize \<le> length u"
      proof
        assume "MaxScanTokenSize \<le> length u"
        with less.prems have "newline \<in> set (take MaxScanTokenSize (drop 0 u))"
          unfolding fits_def by (metis add_0)
        with nonl show False by simp
      qed
      with None False show ?thesis
        by (subst records.simps, subst (2) records.simps) simp
    next
      case (Some i)
      have "length (drop (i + 1) u) < length u"
        using False by (simp add: drop_shorter del: length_drop)
      from less.hyps[OF this fits_drop[OF less.prems]]
      have ih: "snd (records (drop (i + 1) u) fin) = Err_of fin"
        "concat (fst (records (drop (i + 1) u) fin)) = drop (i + 1) u"
        by simp_all
      have r: "records u fin =
                 (take (i + 1) u # fst (records (drop (i + 1) u) fin),
                  snd (records (drop (i + 1) u) fin))"
        using False Some by (subst records.simps) (simp split: prod.splits)
      show ?thesis
        unfolding r using ih by simp
    qed
  qed
qed

lemma records_too_long:
  assumes "newline \<notin> set l" "MaxScanTokenSize \<le> length l"
  shows "records (l @ tail) fin = ([], Some ErrTooLong)"
proof -
  have t: "take MaxScanTokenSize (l @ tail) = take MaxScanTokenSize l"
    using assms(2) by simp
  have ix: "IndexByte (take MaxScanTokenSize (l @ tail)) newline = None"
    unfolding t IndexByte_None using assms(1) by (meson in_set_takeD)
  have ne: "l @ tail \<noteq> []"
    using assms(2) by (auto simp: MaxScanTokenSize_def)
  have len: "MaxScanTokenSize \<le> length (l @ tail)"
    using assms(2) by simp
  show ?thesis
    by (subst records.simps) (simp only: ne ix len if_False if_True option.case)
qed

lemma passed_NopFilter: "passed NopFilter ts = concat ts"
  by (induction ts) (simp_all add: NopFilter_def)

text \<open>
  C5, as amended.  With the identity filter and an input that ends with \<open>io.EOF\<close> and
  fits the scanner, reading with destinations that are not empty delivers the input byte
  for byte: every sequence of calls that runs into an error has delivered exactly the
  input, and the error is \<open>io.EOF\<close>; and more calls than the input has bytes always get
  there.
\<close>

theorem C5_identity_round_trip:
  assumes "fits d" and "\<forall>n \<in> set ns. 0 < n"
  shows "(\<forall>out e.
            fst (read_seq ns (NewStreamReader (Some \<lparr>data = d, final = EOF\<rparr>) (Some NopFilter))) =
              (out, Some e) \<longrightarrow> out = d \<and> e = EOF) \<and>
         (length d < length ns \<longrightarrow>
            fst (read_seq ns (NewStreamReader (Some \<lparr>data = d, final = EOF\<rparr>) (Some NopFilter))) =
              (d, Some EOF))"
proof -
  let ?rd = "\<lparr>data = d, final = EOF\<rparr>"
  obtain ts where rec: "records (data ?rd) (final ?rd) = (ts, None)" and ts: "concat ts = d"
    using records_fits[OF assms(1), of EOF]
    by (cases "records d EOF") (simp add: Err_of_def)
  have ok: "\<forall>t \<in> set ts. snd (NopFilter t) = None" by (simp add: NopFilter_def)
  from read_seq_no_error[OF rec ok assms(2)] show ?thesis
    by (simp add: passed_NopFilter ts del: read_seq.simps)
qed

text \<open>
  The claim as stated fails on a record that is too long for the scanner: a record of
  65536 bytes and its newline is not delivered, the first call returns
  \<open>bufio.ErrTooLong\<close>.
\<close>

theorem C5_counterexample:
  "fst (read_seq [100000]
         (NewStreamReader
            (Some \<lparr>data = replicate 65536 (CHR ''a'') @ ''\<newline>'', final = EOF\<rparr>)
            (Some NopFilter))) =
   ([], Some ErrTooLong)"
proof -
  have "records (replicate 65536 (CHR ''a'') @ ''\<newline>'') EOF = ([], Some ErrTooLong)"
    by (rule records_too_long) (simp_all add: MaxScanTokenSize_def)
  then show ?thesis
    by (subst read_seq_New) (simp add: view_Read_def the_filter_def)
qed

theorem C5_identity_round_trip_witness:
  "fits ''x\<newline>y'' \<and>
   fst (read_seq [1, 1, 1, 1] (NewStreamReader (Some \<lparr>data = ''x\<newline>y'', final = EOF\<rparr>) (Some NopFilter))) =
     (''x\<newline>y'', Some EOF)"
proof -
  have f: "fits ''x\<newline>y''" by (simp add: fits_def MaxScanTokenSize_def)
  have one: "\<forall>n \<in> set [1, 1, 1, 1 :: nat]. 0 < n" by simp
  from C5_identity_round_trip[OF f one] f show ?thesis
    by (simp del: read_seq.simps)
qed

lemma feed_until_error:
  "\<forall>t \<in> set xs. snd (f t) = None \<Longrightarrow> snd (f bad) = Some e \<Longrightarrow>
   feed f (xs @ bad # post) = ((acc, ts', live'), be) \<Longrightarrow>
   live' \<and>
   ((be = Some e \<and> acc = [] \<and> ts' = post \<and> passed f xs = []) \<or>
    (be = None \<and> acc \<noteq> [] \<and>
       (\<exists>ys t zs. xs = ys @ t # zs \<and> ts' = zs @ bad # post \<and> passed f ys = [] \<and>
                  acc = fst (f t))))"
proof (induction xs)
  case Nil
  then show ?case by (cases "f bad") auto
next
  case (Cons t xs)
  obtain s where ft: "f t = (s, None)"
    using Cons.prems(1) by (cases "f t") auto
  show ?case
  proof (cases "s = []")
    case True
    with Cons.prems ft have fd: "feed f (xs @ bad # post) = ((acc, ts', live'), be)" by simp
    from Cons.IH[OF _ Cons.prems(2) fd] Cons.prems(1) have ih: "live' \<and>
      ((be = Some e \<and> acc = [] \<and> ts' = post \<and> passed f xs = []) \<or>
       (be = None \<and> acc \<noteq> [] \<and>
         (\<exists>ys t zs. xs = ys @ t # zs \<and> ts' = zs @ bad # post \<and> passed f ys = [] \<and>
                  acc = fst (f t))))" by simp
    show ?thesis
    proof (cases be)
      case (Some x)
      with ih ft True show ?thesis by simp
    next
      case None
      with ih obtain ys t' zs where
        "xs = ys @ t' # zs" "ts' = zs @ bad # post" "passed f ys = []" "acc = fst (f t')"
        "acc \<noteq> []" by auto
      then have "t # xs = (t # ys) @ t' # zs" "passed f (t # ys) = []"
        using ft True by simp_all
      with ih None \<open>ts' = zs @ bad # post\<close> \<open>acc = fst (f t')\<close> \<open>acc \<noteq> []\<close> show ?thesis
        by blast
    qed
  next
    case False
    with Cons.prems(3) ft have r: "acc = s" "ts' = xs @ bad # post" "live'" "be = None"
      by simp_all
    have "t # xs = [] @ t # xs" "passed f [] = []" "s = fst (f t)" using ft by simp_all
    with r False show ?thesis by blast
  qed
qed

lemma view_read_seq_until_error:
  assumes "\<forall>t \<in> set xs. snd (f t) = None" "snd (f bad) = Some e" "\<forall>n \<in> set ns. 0 < n"
    and "view_read_seq f fe ns (b, xs @ bad # post, True) = ((out, er), v')"
  shows "(\<exists>more. out @ more = b @ passed f xs) \<and> (er = None \<or> er = Some e) \<and>
         (length xs < length ns \<longrightarrow> er = Some e)"
  using assms
proof (induction ns arbitrary: b xs out)
  case Nil
  then show ?case by auto
next
  case (Cons n ns)
  obtain acc ts1 live1 be where fd: "feed f (xs @ bad # post) = ((acc, ts1, live1), be)"
    by (metis prod_cases3 surj_pair)
  note fu = feed_until_error[OF Cons.prems(1,2) fd]
  show ?case
  proof (cases be)
    case (Some x)
    with fu have "be = Some e" by auto
    with Cons.prems(4) fd fu have "out = []" "er = Some e"
      by (auto simp: view_Read_def)
    then show ?thesis by simp
  next
    case None
    with fu obtain ys t zs where
      s: "xs = ys @ t # zs" "ts1 = zs @ bad # post" "passed f ys = []" "acc = fst (f t)"
        "acc \<noteq> []" "live1"
      by auto
    have n: "0 < n" using Cons.prems(3) by simp
    have vr: "view_Read f fe n (b, xs @ bad # post, True) =
                ((take n (b @ acc), None), (drop n (b @ acc), zs @ bad # post, True))"
      using fd None s by (simp add: view_Read_def Buffer_Read_def)
    obtain o2 where
      vs: "view_read_seq f fe ns (drop n (b @ acc), zs @ bad # post, True) = ((o2, er), v')"
      and out: "out = take n (b @ acc) @ o2"
      using Cons.prems(4) vr by (auto split: prod.splits)
    have okz: "\<forall>t \<in> set zs. snd (f t) = None" using Cons.prems(1) s(1) by simp
    have pos: "\<forall>n \<in> set ns. 0 < n" using Cons.prems(3) by simp
    from Cons.IH[OF okz Cons.prems(2) pos vs] obtain more where
      more: "o2 @ more = drop n (b @ acc) @ passed f zs" and er: "er = None \<or> er = Some e"
      and reach: "length zs < length ns \<longrightarrow> er = Some e"
      by auto
    have "length xs < length (n # ns) \<longrightarrow> length zs < length ns"
      using s(1) by simp
    with reach have reach': "length xs < length (n # ns) \<longrightarrow> er = Some e" by blast
    have "out @ more = take n (b @ acc) @ (o2 @ more)" using out by simp
    also have "\<dots> = (take n (b @ acc) @ drop n (b @ acc)) @ passed f zs"
      unfolding more by simp
    also have "\<dots> = (b @ acc) @ passed f zs" by (simp only: append_take_drop_id)
    also have "\<dots> = b @ passed f xs" using s by simp
    finally show ?thesis using er reach' by blast
  qed
qed

lemma view_read_seq_large:
  assumes "\<forall>t \<in> set xs. snd (f t) = None" "snd (f bad) = Some e"
    and "\<forall>n \<in> set ns. \<forall>t \<in> set xs. length (fst (f t)) \<le> n"
    and "length xs < length ns"
  shows "fst (view_read_seq f fe ns ([], xs @ bad # post, True)) = (passed f xs, Some e)"
  using assms
proof (induction ns arbitrary: xs)
  case Nil
  then show ?case by simp
next
  case (Cons n ns)
  obtain acc ts1 live1 be where fd: "feed f (xs @ bad # post) = ((acc, ts1, live1), be)"
    by (metis prod_cases3 surj_pair)
  note fu = feed_until_error[OF Cons.prems(1,2) fd]
  show ?case
  proof (cases be)
    case (Some x)
    with fu have "be = Some e" "passed f xs = []" by auto
    with fd fu show ?thesis
      by (auto simp: view_Read_def)
  next
    case None
    with fu obtain ys t zs where
      s: "xs = ys @ t # zs" "ts1 = zs @ bad # post" "passed f ys = []" "acc = fst (f t)"
        "acc \<noteq> []" "live1"
      by auto
    have "length acc \<le> n" using Cons.prems(3) s(1,4) by simp
    then have vr: "view_Read f fe n ([], xs @ bad # post, True) =
                ((acc, None), ([], zs @ bad # post, True))"
      using fd None s by (simp add: view_Read_def Buffer_Read_def)
    have okz: "\<forall>t \<in> set zs. snd (f t) = None" using Cons.prems(1) s(1) by simp
    have big: "\<forall>n \<in> set ns. \<forall>t \<in> set zs. length (fst (f t)) \<le> n"
      using Cons.prems(3) s(1) by simp
    have len: "length zs < length ns" using Cons.prems(4) s(1) by simp
    from Cons.IH[OF okz Cons.prems(2) big len]
    have "fst (view_read_seq f fe ns ([], zs @ bad # post, True)) = (passed f zs, Some e)" .
    with vr s show ?thesis
      by (auto split: prod.splits)
  qed
qed

text \<open>
  C6, as amended.  The filter returns no error on the records before the \<open>K\<close>-th and
  the error \<open>e\<close> on the \<open>K\<close>-th, \<open>bad\<close>.  Whatever the sizes of the destinations, as
  long as none is empty, the bytes delivered are a prefix of what the filter lets
  through of the records before the \<open>K\<close>-th, and the calls end with no error or with
  \<open>e\<close>: no byte of the \<open>K\<close>-th record or of a later one is delivered.  With at least
  \<open>K\<close> calls they do end with \<open>e\<close>: the prefix is followed by the error of the
  filter.  When every destination has room for each accepted record, the bytes
  delivered before the error are exactly what the filter lets through of the records
  before the \<open>K\<close>-th.
\<close>

theorem C6_filter_error_on_record:
  assumes "records (data rd) (final rd) = (pre @ bad # post, fe)"
    and "\<forall>t \<in> set pre. snd (g t) = None" and "snd (g bad) = Some e"
    and "\<forall>n \<in> set ns. 0 < n"
  shows "(\<exists>out er more.
            fst (read_seq ns (NewStreamReader (Some rd) (Some g))) = (out, er) \<and>
            out @ more = passed g pre \<and> (er = None \<or> er = Some e) \<and>
            (length pre < length ns \<longrightarrow> er = Some e)) \<and>
         ((\<forall>n \<in> set ns. \<forall>t \<in> set pre. length (fst (g t)) \<le> n) \<and> length pre < length ns \<longrightarrow>
            fst (read_seq ns (NewStreamReader (Some rd) (Some g))) = (passed g pre, Some e))"
proof -
  have eq: "fst (read_seq ns (NewStreamReader (Some rd) (Some g))) =
            fst (view_read_seq g fe ns ([], pre @ bad # post, True))"
    by (subst read_seq_New) (simp add: assms(1) the_filter_def)
  obtain out er v' where
    vs: "view_read_seq g fe ns ([], pre @ bad # post, True) = ((out, er), v')"
    by (metis surj_pair)
  from view_read_seq_until_error[OF assms(2,3,4) vs] vs
  have "\<exists>out er more.
          fst (view_read_seq g fe ns ([], pre @ bad # post, True)) = (out, er) \<and>
          out @ more = passed g pre \<and> (er = None \<or> er = Some e) \<and>
          (length pre < length ns \<longrightarrow> er = Some e)"
    by auto
  moreover have "(\<forall>n \<in> set ns. \<forall>t \<in> set pre. length (fst (g t)) \<le> n) \<and> length pre < length ns \<longrightarrow>
          fst (view_read_seq g fe ns ([], pre @ bad # post, True)) = (passed g pre, Some e)"
    using view_read_seq_large[OF assms(2,3)] by blast
  ultimately show ?thesis unfolding eq by blast
qed

text \<open>
  The claim as stated fails with small destinations: the filter fails on the second
  record, and with destinations of one byte the error comes after one byte of the first
  record, not after its three bytes.
\<close>

theorem C6_counterexample:
  "fst (read_seq [1, 1, 1, 1, 1, 1, 1]
         (NewStreamReader (Some \<lparr>data = ''ab\<newline>cd\<newline>ef\<newline>'', final = EOF\<rparr>)
            (Some (fail_on ''cd\<newline>'' (ErrOther ''boom''))))) =
     (''a'', Some (ErrOther ''boom''))"
  by (subst read_seq_New) (simp add: eval_simps)

theorem C6_filter_error_on_record_witness:
  "fst (read_seq [8, 8, 8]
         (NewStreamReader (Some \<lparr>data = ''ab\<newline>cd\<newline>ef\<newline>'', final = EOF\<rparr>)
            (Some (fail_on ''ef\<newline>'' (ErrOther ''boom''))))) =
     (''ab\<newline>cd\<newline>'', Some (ErrOther ''boom'')) \<and>
   (\<exists>out more.
      fst (read_seq [1, 1, 1]
         (NewStreamReader (Some \<lparr>data = ''ab\<newline>cd\<newline>ef\<newline>'', final = EOF\<rparr>)
            (Some (fail_on ''ef\<newline>'' (ErrOther ''boom''))))) =
        (out, Some (ErrOther ''boom'')) \<and>
      out @ more = ''ab\<newline>cd\<newline>'')"
proof -
  let ?rd = "\<lparr>data = ''ab\<newline>cd\<newline>ef\<newline>'', final = EOF\<rparr>"
  let ?g = "fail_on ''ef\<newline>'' (ErrOther ''boom'')"
  have rec: "records (data ?rd) (final ?rd) = ([''ab\<newline>'', ''cd\<newline>''] @ ''ef\<newline>'' # [], None)"
    by (simp add: eval_simps)
  have ok: "\<forall>t \<in> set [''ab\<newline>'', ''cd\<newline>'']. snd (?g t) = None"
    by (simp add: fail_on_def)
  have bad: "snd (?g ''ef\<newline>'') = Some (ErrOther ''boom'')"
    by (simp add: fail_on_def)
  have pos: "\<forall>n \<in> set [8, 8, 8 :: nat]. 0 < n" by simp
  have pos1: "\<forall>n \<in> set [1, 1, 1 :: nat]. 0 < n" by simp
  have big: "(\<forall>n \<in> set [8, 8, 8 :: nat]. \<forall>t \<in> set [''ab\<newline>'', ''cd\<newline>'']. length (fst (?g t)) \<le> n) \<and>
             length [''ab\<newline>'', ''cd\<newline>''] < length [8, 8, 8 :: nat]"
    by (simp add: fail_on_def)
  have len: "length [''ab\<newline>'', ''cd\<newline>''] < length [1, 1, 1 :: nat]" by simp
  have p: "passed ?g [''ab\<newline>'', ''cd\<newline>''] = ''ab\<newline>cd\<newline>''"
    by (simp add: fail_on_def)
  from C6_filter_error_on_record[OF rec ok bad pos] big
  have a: "fst (read_seq [8, 8, 8] (NewStreamReader (Some ?rd) (Some ?g))) =
             (''ab\<newline>cd\<newline>'', Some (ErrOther ''boom''))"
    unfolding p by blast
  from C6_filter_error_on_record[OF rec ok bad pos1] len
  have b: "\<exists>out more. fst (read_seq [1, 1, 1] (NewStreamReader (Some ?rd) (Some ?g))) =
             (out, Some (ErrOther ''boom'')) \<and> out @ more = ''ab\<newline>cd\<newline>''"
    unfolding p by blast
  from a b show ?thesis by blast
qed

section \<open>\<open>json.Valid\<close>\<close>





































section \<open>The JSON-line reader\<close>

























end
